theory Spec2Isabelle
  imports Main "HOL-Library.Word"
begin

unbundle bit_operations_syntax

section \<open>Machine integers and failures\<close>

text \<open>
  The factorization engine of \<^verbatim>\<open>src/util/numeric.cpp\<close> computes on \<^verbatim>\<open>unsigned long\<close>
  and \<^verbatim>\<open>uint64_t\<close>, which are 64-bit words on the LP64 platforms the tool is built for, and
  on \<^verbatim>\<open>unsigned\<close>, a 32-bit word. Arithmetic on them wraps around; \<open>unat\<close> reads a word
  as a natural number.

  Tuple positions and the decomposition order are small non-negative numbers in the
  source (\<^verbatim>\<open>int order\<close>, \<^verbatim>\<open>unsigned\<close> map keys, vector indices); they are natural numbers
  here. A negative \<^verbatim>\<open>order\<close> is outside the model: the source's recursion then never
  reaches one of its base cases.
\<close>

type_synonym ulong = "64 word"

text \<open>
  What a run of the source can do other than return: loop for ever (\<open>Diverges\<close>), divide
  by zero, fail an \<^verbatim>\<open>assert\<close>, throw \<^verbatim>\<open>std::out_of_range\<close> from \<^verbatim>\<open>vector::at\<close>, or step
  outside what C++ defines (incrementing a past-the-end iterator, inserting beyond the
  end of a vector).
\<close>

datatype failure = Diverges | DivideByZero | AssertionFailed | OutOfRange | UndefinedBehaviour

section \<open>Factors: the divisor list and the ordered factorizations\<close>

text \<open>
  \<^verbatim>\<open>ISqrt_\<close>: the first loop, \<^verbatim>\<open>while (one > op) one >>= 2\<close>, started from
  \<^verbatim>\<open>one = 1 << 30\<close>.
\<close>

function isqrt_seek :: "ulong \<Rightarrow> ulong \<Rightarrow> ulong" where
  "isqrt_seek one op = (if one > op then isqrt_seek (drop_bit 2 one) op else one)"
  by pat_completeness auto
termination
proof (relation "measure (\<lambda>(one, op). unat one)")
  show "wf (measure (\<lambda>(one :: ulong, op :: ulong). unat one))" by simp
next
  fix one op :: ulong
  assume "op < one"
  then have "0 < unat one" by (metis not_less_zero word_less_nat_alt gr0I)
  then have "unat one div 4 < unat one" by simp
  then show "((drop_bit 2 one, op), one, op) \<in> measure (\<lambda>(one, op). unat one)"
    by (simp add: unat_drop_bit_eq drop_bit_eq_div unat_div)
qed

text \<open>
  The second loop, \<^verbatim>\<open>while (one != 0)\<close>: the body subtracts and sets a bit of the root
  when \<^verbatim>\<open>op >= res + one\<close>, then halves \<^verbatim>\<open>res\<close> and shifts \<^verbatim>\<open>one\<close> right by two.
\<close>

function isqrt_loop :: "ulong \<Rightarrow> ulong \<Rightarrow> ulong \<Rightarrow> ulong" where
  "isqrt_loop op res one =
     (if one \<noteq> 0 then
        (if op \<ge> res + one
         then isqrt_loop (op - (res + one)) (drop_bit 1 (res + push_bit 1 one)) (drop_bit 2 one)
         else isqrt_loop op (drop_bit 1 res) (drop_bit 2 one))
      else res)"
  by pat_completeness auto
termination
proof (relation "measure (\<lambda>(op, res, one). unat one)")
  show "wf (measure (\<lambda>(op :: ulong, res :: ulong, one :: ulong). unat one))" by simp
next
  fix op res one :: ulong
  assume "one \<noteq> 0"
  then have "0 < unat one" by (simp add: unat_gt_0)
  then have "unat one div 4 < unat one" by simp
  then show "((op - (res + one), drop_bit 1 (res + push_bit 1 one), drop_bit 2 one), op, res, one)
      \<in> measure (\<lambda>(op, res, one). unat one)"
    by (simp add: unat_drop_bit_eq drop_bit_eq_div unat_div)
next
  fix op res one :: ulong
  assume "one \<noteq> 0"
  then have "0 < unat one" by (simp add: unat_gt_0)
  then have "unat one div 4 < unat one" by simp
  then show "((op, drop_bit 1 res, drop_bit 2 one), op, res, one)
      \<in> measure (\<lambda>(op, res, one). unat one)"
    by (simp add: unat_drop_bit_eq drop_bit_eq_div unat_div)
qed

definition ISqrt :: "ulong \<Rightarrow> ulong" where
  "ISqrt x = isqrt_loop x 0 (isqrt_seek (push_bit 30 1) x)"

text \<open>
  The values the counter of \<^verbatim>\<open>for (unsigned long i = lo; i <= hi; i++)\<close> takes, in order.
  When \<open>i\<close> reaches the largest word while \<^verbatim>\<open>i <= hi\<close> still holds, the increment wraps to
  0 and the loop never exits: \<open>None\<close>.
\<close>

function count_from :: "ulong \<Rightarrow> ulong \<Rightarrow> ulong list option" where
  "count_from i hi =
     (if i \<le> hi
      then (if i + 1 = 0 then None else map_option ((#) i) (count_from (i + 1) hi))
      else Some [])"
  by pat_completeness auto
termination
proof (relation "measure (\<lambda>(i, hi). 2 ^ 64 - unat i)")
  show "wf (measure (\<lambda>(i :: ulong, hi :: ulong). 2 ^ 64 - unat i))" by simp
next
  fix i hi :: ulong
  assume "i + 1 \<noteq> 0"
  then have "unat (i + 1) = Suc (unat i)" by (metis add.commute unatSuc)
  moreover have "unat (i + 1) < 2 ^ 64" using unsigned_less [of "i + 1"] by simp
  ultimately show "((i + 1, hi), i, hi) \<in> measure (\<lambda>(i, hi). 2 ^ 64 - unat i)"
    by simp
qed

text \<open>
  \<^verbatim>\<open>Factors::CalculateAllFactors_\<close>: the body of the trial-division loop pushes \<open>i\<close>, and
  \<open>n / i\<close> too unless \<open>i * i = n\<close>, when \<open>i\<close> divides \<open>n\<close>. The counter starts at 1, so the
  remainder is never taken modulo 0.
\<close>

definition divisor_step :: "ulong \<Rightarrow> ulong \<Rightarrow> ulong list" where
  "divisor_step n i =
     (if n mod i = 0 then (if i * i \<noteq> n then [i, n div i] else [i]) else [])"

definition CalculateAllFactors :: "ulong \<Rightarrow> failure + ulong list" where
  "CalculateAllFactors n =
     (case count_from 1 (ISqrt n) of
        None \<Rightarrow> Inl Diverges
      | Some js \<Rightarrow> Inr (concat (map (divisor_step n) js)))"

text \<open>
  \<^verbatim>\<open>Factors::MultiplicativeSplitRecursive_\<close>, with the member \<^verbatim>\<open>all_factors_\<close> as the first
  argument. Order 0 gives the one empty tuple, order 1 the tuple \<open>[n]\<close>; otherwise each
  entry \<open>f\<close> of \<^verbatim>\<open>all_factors_\<close> that divides the residue is pushed at the back of every
  tuple of the subproblem \<open>n / f\<close>.
\<close>

fun MultiplicativeSplitRecursive :: "ulong list \<Rightarrow> ulong \<Rightarrow> nat \<Rightarrow> ulong list list" where
  "MultiplicativeSplitRecursive fs n 0 = [[]]"
| "MultiplicativeSplitRecursive fs n (Suc 0) = [[n]]"
| "MultiplicativeSplitRecursive fs n (Suc (Suc k)) =
     concat (map (\<lambda>f. if n mod f = 0
                        then map (\<lambda>v. v @ [f]) (MultiplicativeSplitRecursive fs (n div f) (Suc k))
                        else []) fs)"

text \<open>\<^verbatim>\<open>Factors::Factors(n, order)\<close>: the collection \<^verbatim>\<open>cofactors_\<close> it builds.\<close>

definition Factors :: "ulong \<Rightarrow> nat \<Rightarrow> failure + ulong list list" where
  "Factors n order =
     (case CalculateAllFactors n of
        Inl e \<Rightarrow> Inl e
      | Inr fs \<Rightarrow> Inr (MultiplicativeSplitRecursive fs n order))"

subsection \<open>Factors with a Given Assignment\<close>

text \<open>
  A \<^verbatim>\<open>std::map<unsigned, unsigned long>\<close> (the Given Assignment, and the map of maxima
  of \<^verbatim>\<open>PruneMax\<close>) is the list of its entries in ascending key order, the order in which
  the source's loops traverse it.
\<close>

type_synonym index_map = "(nat \<times> ulong) list"

text \<open>
  The validation loop of \<^verbatim>\<open>Factors::Factors(n, order, given)\<close>:
  \<^verbatim>\<open>for (auto f = given.begin(); f != given.end(); f++)\<close>. An entry whose value times the
  running partial product divides \<open>n\<close> is multiplied into the partial product. Otherwise
  the entry is erased by \<^verbatim>\<open>f = given.erase(f)\<close>, which leaves \<open>f\<close> at the entry after the
  erased one; the loop's \<^verbatim>\<open>f++\<close> then steps over that entry, which so stays in the map
  without having been examined. When the erased entry was the last one, \<open>f\<close> is the
  past-the-end iterator and \<^verbatim>\<open>f++\<close> is undefined. The remainder \<^verbatim>\<open>n % (factor *
  partial_product)\<close> traps when the product is 0, and \<^verbatim>\<open>assert(n % partial_product == 0)\<close>
  closes every round. The result is the partial product and the entries left in the map.
\<close>

fun accumulate_given :: "ulong \<Rightarrow> ulong \<Rightarrow> index_map \<Rightarrow> failure + (ulong \<times> index_map)" where
  "accumulate_given n pp [] = Inr (pp, [])"
| "accumulate_given n pp ((ix, factor) # rest) =
     (if factor * pp = 0 then Inl DivideByZero
      else if n mod (factor * pp) = 0
      then (if n mod (pp * factor) \<noteq> 0 then Inl AssertionFailed
            else case accumulate_given n (pp * factor) rest of
                   Inl e \<Rightarrow> Inl e
                 | Inr (pp', kept) \<Rightarrow> Inr (pp', (ix, factor) # kept))
      else (if n mod pp \<noteq> 0 then Inl AssertionFailed
            else case rest of
                   [] \<Rightarrow> Inl UndefinedBehaviour
                 | skipped # rest' \<Rightarrow>
                     (case accumulate_given n pp rest' of
                        Inl e \<Rightarrow> Inl e
                      | Inr (pp', kept) \<Rightarrow> Inr (pp', skipped # kept))))"

text \<open>
  The insertion loop: each entry left in the map is inserted at its index, in ascending
  key order, after \<^verbatim>\<open>assert(index <= cofactors.size())\<close>.
\<close>

fun insert_given :: "index_map \<Rightarrow> ulong list \<Rightarrow> failure + ulong list" where
  "insert_given [] v = Inr v"
| "insert_given ((ix, val) # g) v =
     (if ix \<le> length v then insert_given g (take ix v @ val # drop ix v)
      else Inl AssertionFailed)"

fun insert_given_all :: "index_map \<Rightarrow> ulong list list \<Rightarrow> failure + ulong list list" where
  "insert_given_all g [] = Inr []"
| "insert_given_all g (v # vs) =
     (case insert_given g v of
        Inl e \<Rightarrow> Inl e
      | Inr v' \<Rightarrow> (case insert_given_all g vs of Inl e \<Rightarrow> Inl e | Inr vs' \<Rightarrow> Inr (v' # vs')))"

text \<open>
  \<^verbatim>\<open>Factors::Factors(n, order, given)\<close>. The divisor \<^verbatim>\<open>partial_product\<close> of
  \<^verbatim>\<open>n / partial_product\<close> is guarded like every division of the model.
\<close>

definition Factors_given :: "ulong \<Rightarrow> nat \<Rightarrow> index_map \<Rightarrow> failure + ulong list list" where
  "Factors_given n order given =
     (if length given > order then Inl AssertionFailed
      else case accumulate_given n 1 given of
        Inl e \<Rightarrow> Inl e
      | Inr (pp, kept) \<Rightarrow>
          (case CalculateAllFactors n of
             Inl e \<Rightarrow> Inl e
           | Inr fs \<Rightarrow>
               if pp = 0 then Inl DivideByZero
               else insert_given_all kept
                      (MultiplicativeSplitRecursive fs (n div pp) (order - length kept))))"

subsection \<open>PruneMax\<close>

text \<open>
  The inner loop of \<^verbatim>\<open>Factors::PruneMax\<close> over the entries of \<^verbatim>\<open>max\<close>: the assertion
  \<^verbatim>\<open>index <= size\<close>, then \<^verbatim>\<open>at(index)\<close>, which throws when \<open>index = size\<close>, then the
  comparison, leaving the loop at the first value above its maximum. The result is the
  flag \<^verbatim>\<open>illegal\<close>.
\<close>

fun max_exceeded :: "index_map \<Rightarrow> ulong list \<Rightarrow> failure + bool" where
  "max_exceeded [] t = Inr False"
| "max_exceeded ((ix, mx) # rest) t =
     (if \<not> ix \<le> length t then Inl AssertionFailed
      else if \<not> ix < length t then Inl OutOfRange
      else if t ! ix > mx then Inr True
      else max_exceeded rest t)"

text \<open>
  The outer loop erases the tuples flagged illegal and keeps the others in place.
\<close>

fun PruneMax :: "index_map \<Rightarrow> ulong list list \<Rightarrow> failure + ulong list list" where
  "PruneMax mx [] = Inr []"
| "PruneMax mx (t # ts) =
     (case max_exceeded mx t of
        Inl e \<Rightarrow> Inl e
      | Inr illegal \<Rightarrow>
          (case PruneMax mx ts of
             Inl e \<Rightarrow> Inl e
           | Inr ts' \<Rightarrow> Inr (if illegal then ts' else t # ts')))"

section \<open>Miscellaneous: SmallestFactor and GetTiling\<close>

text \<open>
  \<^verbatim>\<open>SmallestFactor(n, factor, residue)\<close>: the loop \<^verbatim>\<open>for (uint64_t i = 2; i < n; i++)\<close>
  returns the first divisor found with its quotient, and \<open>(n, 1)\<close> when there is none. The
  pair is \<open>(factor, residue)\<close>.
\<close>

function smallest_factor_loop :: "ulong \<Rightarrow> ulong \<Rightarrow> ulong \<times> ulong" where
  "smallest_factor_loop n i =
     (if i < n then (if n mod i = 0 then (i, n div i) else smallest_factor_loop n (i + 1))
      else (n, 1))"
  by pat_completeness auto
termination
proof (relation "measure (\<lambda>(n, i). unat n - unat i)")
  show "wf (measure (\<lambda>(n :: ulong, i :: ulong). unat n - unat i))" by simp
next
  fix n i :: ulong
  assume lt: "i < n"
  then have "i + 1 \<noteq> 0" by unat_arith
  then have "unat (i + 1) = Suc (unat i)" by (metis add.commute unatSuc)
  moreover from lt have "unat i < unat n" by (simp add: word_less_nat_alt)
  ultimately show "((n, i + 1), n, i) \<in> measure (\<lambda>(n, i). unat n - unat i)"
    by simp
qed

definition SmallestFactor :: "ulong \<Rightarrow> ulong \<times> ulong" where
  "SmallestFactor n = smallest_factor_loop n 2"


text \<open>
  The residue \<^verbatim>\<open>SmallestFactor\<close> returns for \<open>n > 1\<close> is below \<open>n\<close>; this is what makes
  the loop of \<^verbatim>\<open>GetTiling\<close> terminate.
\<close>

lemma smallest_factor_loop_residue:
  "2 \<le> i \<Longrightarrow> 1 < n \<Longrightarrow> snd (smallest_factor_loop n i) < n"
proof (induction n i rule: smallest_factor_loop.induct)
  case (1 n i)
  show ?case
  proof (cases "i < n")
    case False
    with "1.prems" show ?thesis by (simp add: smallest_factor_loop.simps [of n i])
  next
    case lt: True
    show ?thesis
    proof (cases "n mod i = 0")
      case True
      have "2 \<le> unat i" using "1.prems"(1) by (simp add: word_le_nat_alt)
      moreover have "0 < unat n" using "1.prems"(2) by (simp add: word_less_nat_alt)
      ultimately have "unat n div unat i < unat n" by simp
      then have "n div i < n" by (simp add: word_less_nat_alt unat_div)
      with lt True show ?thesis by (simp add: smallest_factor_loop.simps [of n i])
    next
      case False
      have "i + 1 \<noteq> 0" using lt by unat_arith
      then have "2 \<le> i + 1" using "1.prems"(1) by unat_arith
      with "1.IH" [OF lt False] "1.prems"(2) have "snd (smallest_factor_loop n (i + 1)) < n" by simp
      with lt False show ?thesis by (simp add: smallest_factor_loop.simps [of n i])
    qed
  qed
qed

text \<open>
  \<^verbatim>\<open>GetTiling\<close>: the loop \<^verbatim>\<open>while (residue > 1)\<close> collects the vector \<^verbatim>\<open>factors\<close>; the
  second loop multiplies the entries at even indices into \<^verbatim>\<open>height\<close> and the others into
  \<^verbatim>\<open>width\<close>; the two are swapped when \<^verbatim>\<open>height > width\<close>. The pair is \<open>(height, width)\<close>.
\<close>

function tiling_factors :: "ulong \<Rightarrow> ulong list" where
  "tiling_factors residue =
     (if residue > 1
      then (case SmallestFactor residue of (cur_factor, residue') \<Rightarrow>
              cur_factor # tiling_factors residue')
      else [])"
  by pat_completeness auto
termination
proof (relation "measure unat")
  show "wf (measure (unat :: ulong \<Rightarrow> nat))" by simp
next
  fix residue cur_factor residue' :: ulong
  assume "1 < residue" and "(cur_factor, residue') = SmallestFactor residue"
  then have "smallest_factor_loop residue 2 = (cur_factor, residue')" and "1 < residue"
    by (simp_all add: SmallestFactor_def)
  then have "residue' < residue" using smallest_factor_loop_residue [of 2 residue] by simp
  then show "(residue', residue) \<in> measure unat" by (simp add: word_less_nat_alt)
qed

fun alternate :: "ulong list \<Rightarrow> nat \<Rightarrow> ulong \<Rightarrow> ulong \<Rightarrow> ulong \<times> ulong" where
  "alternate [] i height width = (height, width)"
| "alternate (f # fs) i height width =
     (if i mod 2 = 0 then alternate fs (i + 1) (height * f) width
      else alternate fs (i + 1) height (width * f))"

definition GetTiling :: "ulong \<Rightarrow> ulong \<times> ulong" where
  "GetTiling num_elems =
     (case alternate (tiling_factors num_elems) 0 1 1 of (height, width) \<Rightarrow>
        if height > width then (width, height) else (height, width))"

section \<open>ResidualFactors\<close>

text \<open>
  Two expressions of \<^verbatim>\<open>ResidualFactors\<close> compute in \<^verbatim>\<open>double\<close>:
  \<^verbatim>\<open>(unsigned int)(pow((double)n_, 1.0/(2.0)) + 1.5)\<close> in \<^verbatim>\<open>GenerateFactorProduct_\<close>, and
  \<^verbatim>\<open>n * n_ * ceil((double)n_/(double)n)\<close>, converted to \<^verbatim>\<open>unsigned long\<close>, in
  \<^verbatim>\<open>CalculateSpatialFactors_\<close>. Floating-point arithmetic is not modelled: the two
  expressions are parameters of the model, \<open>sqrt_bound\<close> as a function of \<^verbatim>\<open>n_\<close> and
  \<open>spatial_multiple\<close> as a function of the loop variable \<open>n\<close> and of \<^verbatim>\<open>n_\<close>, and a theorem
  about \<^verbatim>\<open>ResidualFactors\<close> holds for whatever values they take.
\<close>

record float_ops =
  sqrt_bound :: "ulong \<Rightarrow> 32 word"
  spatial_multiple :: "ulong \<Rightarrow> ulong \<Rightarrow> ulong"

text \<open>
  The values pushed by \<^verbatim>\<open>for (unsigned j = 1; j <= i; j++) r.push_back(j)\<close>, where \<open>j\<close>
  is a 32-bit counter compared with the 64-bit bound: \<open>None\<close> when the counter wraps
  before the comparison fails.
\<close>

function count_from32 :: "32 word \<Rightarrow> ulong \<Rightarrow> ulong list option" where
  "count_from32 j hi =
     (if ucast j \<le> hi
      then (if j + 1 = 0 then None else map_option ((#) (ucast j)) (count_from32 (j + 1) hi))
      else Some [])"
  by pat_completeness auto
termination
proof (relation "measure (\<lambda>(j, hi). 2 ^ 32 - unat j)")
  show "wf (measure (\<lambda>(j :: 32 word, hi :: ulong). 2 ^ 32 - unat j))" by simp
next
  fix j :: "32 word" and hi :: ulong
  assume "j + 1 \<noteq> 0"
  then have "unat (j + 1) = Suc (unat j)" by (metis add.commute unatSuc)
  moreover have "unat (j + 1) < 2 ^ 32" using unsigned_less [of "j + 1"] by simp
  ultimately show "((j + 1, hi), j, hi) \<in> measure (\<lambda>(j, hi). 2 ^ 32 - unat j)"
    by simp
qed

text \<open>
  The header \<^verbatim>\<open>util/numeric.hpp\<close> that declares the members is not among the sources.
  \<^verbatim>\<open>ResidualFactors::all_factors_\<close> is filled by \<^verbatim>\<open>insert\<close>: it is taken to be a
  \<^verbatim>\<open>std::set<unsigned long>\<close>, here the ascending list of its elements.
\<close>

definition set_insert :: "ulong \<Rightarrow> ulong list \<Rightarrow> ulong list" where
  "set_insert x s = (if x \<in> set s then s else insort x s)"

text \<open>
  \<^verbatim>\<open>ResidualFactors::CalculateAllFactors_\<close>: the trial division of \<^verbatim>\<open>Factors\<close>,
  inserting into the set.
\<close>

definition Residual_CalculateAllFactors :: "ulong \<Rightarrow> ulong list \<Rightarrow> failure + ulong list" where
  "Residual_CalculateAllFactors n all_factors =
     (case count_from 1 (ISqrt n) of
        None \<Rightarrow> Inl Diverges
      | Some js \<Rightarrow> Inr (fold set_insert (concat (map (divisor_step n) js)) all_factors))"

text \<open>
  \<^verbatim>\<open>CalculateSpatialFactors_\<close>: \<^verbatim>\<open>spatial_possible\<close> lists \<open>1 .. s\<close> for every spatial
  factor \<open>s\<close>; for each of its entries \<open>g\<close> is computed and every \<open>i\<close> in \<open>1 .. n_\<close> that
  divides \<open>g\<close> contributes \<open>i\<close> and \<open>g / i\<close>, each only when below \<^verbatim>\<open>n_\<close>.
\<close>

definition spatial_step :: "ulong \<Rightarrow> ulong \<Rightarrow> ulong \<Rightarrow> ulong list" where
  "spatial_step n g i =
     (if g mod i = 0
      then (if i < n then [i] else []) @
           (if i * i \<noteq> g then (if g div i < n then [g div i] else []) else [])
      else [])"

definition CalculateSpatialFactors ::
  "float_ops \<Rightarrow> ulong \<Rightarrow> ulong list \<Rightarrow> ulong list \<Rightarrow> failure + ulong list" where
  "CalculateSpatialFactors fp n spatial_factors all_factors =
     (case those (map (count_from 1) spatial_factors) of
        None \<Rightarrow> Inl Diverges
      | Some ranges \<Rightarrow>
          (let spatial_possible = concat ranges in
           if spatial_possible = [] then Inr all_factors
           else case count_from 1 n of
                  None \<Rightarrow> Inl Diverges
                | Some js \<Rightarrow>
                    Inr (fold set_insert
                          (concat (map (\<lambda>s. concat (map (spatial_step n (spatial_multiple fp s n)) js))
                                       spatial_possible))
                          all_factors)))"

text \<open>
  \<^verbatim>\<open>cart_product\<close>: every tuple that takes its \<open>k\<close>-th entry from the \<open>k\<close>-th list.
\<close>

definition cart_product :: "ulong list list \<Rightarrow> ulong list list" where
  "cart_product v = fold (\<lambda>u s. concat (map (\<lambda>x. map (\<lambda>y. x @ [y]) u) s)) v [[]]"

text \<open>
  \<^verbatim>\<open>GenerateFactorProduct_\<close>. For rotation \<open>rec\<close>, position \<open>i\<close> may hold the elements of
  \<^verbatim>\<open>all_factors_\<close> selected by the chain of conditions of the source, \<open>T\<close> being the
  value of \<open>sqrt_bound\<close>; the lists of positions 0 and \<open>rec\<close> are swapped and the Cartesian
  product is appended to \<^verbatim>\<open>replicated_factors_\<close>. The tuples whose product of
  \<open>p - 1\<close> over the entries \<open>p \<noteq> 1\<close> is at most \<open>n\<close> form \<^verbatim>\<open>pruned_product_factors_\<close>. The
  bound \<open>T\<close> is computed from the member \<^verbatim>\<open>n_\<close>, the pruning compares with the argument.
\<close>

definition position_choices :: "ulong \<Rightarrow> ulong list \<Rightarrow> nat \<Rightarrow> nat \<Rightarrow> ulong list" where
  "position_choices T all_factors rec i =
     filter (\<lambda>a. if i = 0 \<and> rec = 0 then True
                  else if a \<le> T \<and> i > 0 then True
                  else if rec > 0 \<and> i = 0 \<and> a \<ge> T then True
                  else False) all_factors"

definition rotation :: "ulong \<Rightarrow> ulong list \<Rightarrow> nat \<Rightarrow> nat \<Rightarrow> ulong list list" where
  "rotation T all_factors order rec =
     (let inter_factors = map (position_choices T all_factors rec) [0..<order]
      in cart_product (inter_factors[0 := inter_factors ! rec, rec := inter_factors ! 0]))"

definition prune_product :: "ulong list \<Rightarrow> ulong" where
  "prune_product t = fold (\<lambda>p product. if p \<noteq> 1 then product * (p - 1) else product) t 1"

definition GenerateFactorProduct ::
  "float_ops \<Rightarrow> ulong \<Rightarrow> ulong list \<Rightarrow> ulong \<Rightarrow> nat \<Rightarrow> ulong list list" where
  "GenerateFactorProduct fp n_member all_factors n order =
     (let replicated_factors =
            concat (map (rotation (ucast (sqrt_bound fp n_member)) all_factors order) [0..<order])
      in filter (\<lambda>t. prune_product t \<le> n) replicated_factors)"

text \<open>
  \<^verbatim>\<open>GenerateResidual_\<close>: the Cartesian product of \<open>1 .. s\<close> over the spatial factors,
  filtered by \<^verbatim>\<open>sum <= n + (unsigned)order\<close>.
\<close>

definition GenerateResidual :: "ulong list \<Rightarrow> ulong \<Rightarrow> nat \<Rightarrow> failure + ulong list list" where
  "GenerateResidual spatial_factors n order =
     (case those (map (count_from32 1) spatial_factors) of
        None \<Rightarrow> Inl Diverges
      | Some residual_factors \<Rightarrow>
          Inr (filter (\<lambda>t. fold (\<lambda>p sum. sum + p) t 0 \<le> n + ucast (word_of_nat order :: 32 word))
                 (cart_product residual_factors)))"

text \<open>
  \<^verbatim>\<open>EquationSolver_\<close> first inserts the entries of \<^verbatim>\<open>given\<close> into the candidate factor
  tuples, \<^verbatim>\<open>insert(begin() + index, value)\<close> without any check of the index: beyond the end
  of the tuple the insertion is undefined.
\<close>

fun splice :: "index_map \<Rightarrow> ulong list \<Rightarrow> failure + ulong list" where
  "splice [] v = Inr v"
| "splice ((ix, val) # g) v =
     (if ix \<le> length v then splice g (take ix v @ val # drop ix v)
      else Inl UndefinedBehaviour)"

text \<open>
  Running a loop body that returns the tuples it appends, up to the first failure.
\<close>

fun collect :: "('a \<Rightarrow> failure + 'b list) \<Rightarrow> 'a list \<Rightarrow> failure + 'b list" where
  "collect h [] = Inr []"
| "collect h (x # xs) =
     (case h x of
        Inl e \<Rightarrow> Inl e
      | Inr ys \<Rightarrow> (case collect h xs of Inl e \<Rightarrow> Inl e | Inr zs \<Rightarrow> Inr (ys @ zs)))"

text \<open>
  The loop that builds \<^verbatim>\<open>valid_residual_factors\<close> for a factor tuple \<open>f\<close> and a
  residual candidate \<open>r\<close>: position \<open>i\<close> takes \<^verbatim>\<open>r.at(s_i)\<close> when \<open>i\<close> occurs in
  \<^verbatim>\<open>spatial_ix_\<close> (and \<^verbatim>\<open>valid\<close> is cleared when the factor exceeds
  \<^verbatim>\<open>spatial_factors_[s_i]\<close>), and the factor itself otherwise.
\<close>

fun residual_vector ::
  "ulong list \<Rightarrow> ulong list \<Rightarrow> ulong list \<Rightarrow> nat \<Rightarrow> nat \<Rightarrow> ulong list \<Rightarrow> failure + (ulong list \<times> bool)" where
  "residual_vector spatial_ix spatial_factors r i s_i [] = Inr ([], True)"
| "residual_vector spatial_ix spatial_factors r i s_i (x # xs) =
     (if word_of_nat i \<in> set spatial_ix
      then (if \<not> s_i < length r then Inl OutOfRange
            else if \<not> s_i < length spatial_factors then Inl UndefinedBehaviour
            else case residual_vector spatial_ix spatial_factors r (i + 1) (s_i + 1) xs of
                   Inl e \<Rightarrow> Inl e
                 | Inr (vs, valid) \<Rightarrow>
                     Inr (r ! s_i # vs, (if x > spatial_factors ! s_i then False else valid)))
      else case residual_vector spatial_ix spatial_factors r (i + 1) s_i xs of
             Inl e \<Rightarrow> Inl e
           | Inr (vs, valid) \<Rightarrow> Inr (x # vs, valid))"

text \<open>
  The loop \<^verbatim>\<open>for (unsigned j = f.size(); j > 0; j--)\<close> evaluates
  \<^verbatim>\<open>equation_answer = f.at(j-1) * equation_answer + (valid_residual_factors.at(j-1) - 1)\<close>
  from the last position down to position 0, and clears \<^verbatim>\<open>valid\<close> where the factor is below
  the residual. The counter \<open>j\<close> is 32 bits wide, so the loop covers the first
  \<open>size mod 2\<^sup>3\<^sup>2\<close> positions. A pair is appended to \<^verbatim>\<open>cofactors_\<close> and \<^verbatim>\<open>rfactors_\<close>
  when \<^verbatim>\<open>equation_answer + 1 == n\<close> and \<^verbatim>\<open>valid\<close>. The two vectors grow together and are
  one list of pairs here.
\<close>

fun equation_answer :: "(ulong \<times> ulong) list \<Rightarrow> ulong" where
  "equation_answer [] = 0"
| "equation_answer ((f, v) # rest) = f * equation_answer rest + (v - 1)"

definition solve_pair ::
  "ulong \<Rightarrow> ulong list \<Rightarrow> ulong list \<Rightarrow> ulong list \<Rightarrow> ulong list \<Rightarrow> failure + (ulong list \<times> ulong list) list" where
  "solve_pair n spatial_ix spatial_factors f r =
     (case residual_vector spatial_ix spatial_factors r 0 0 f of
        Inl e \<Rightarrow> Inl e
      | Inr (valid_residual_factors, valid) \<Rightarrow>
          (let digits = take (length f mod 2 ^ 32) (zip f valid_residual_factors)
           in Inr (if equation_answer digits + 1 = n
                      \<and> valid \<and> list_all (\<lambda>(x, v). \<not> x < v) digits
                   then [(f, valid_residual_factors)] else [])))"

text \<open>
  \<^verbatim>\<open>EquationSolver_\<close>. The insertion loop \<^verbatim>\<open>for (unsigned i = size; i > 0; i--)\<close> has a
  32-bit counter too.
\<close>

definition EquationSolver ::
  "ulong \<Rightarrow> index_map \<Rightarrow> ulong list \<Rightarrow> ulong list \<Rightarrow> ulong list list \<Rightarrow> ulong list list
     \<Rightarrow> failure + (ulong list \<times> ulong list) list" where
  "EquationSolver n given spatial_ix spatial_factors pruned_product_factors pruned_residual_factors =
     (let m = length pruned_product_factors mod 2 ^ 32 in
      case collect (\<lambda>t. map_sum id (\<lambda>t'. [t']) (splice given t)) (take m pruned_product_factors) of
        Inl e \<Rightarrow> Inl e
      | Inr spliced \<Rightarrow>
          collect (\<lambda>f. collect (solve_pair n spatial_ix spatial_factors f) pruned_residual_factors)
            (spliced @ drop m pruned_product_factors))"

text \<open>
  \<^verbatim>\<open>ResidualFactors::ResidualFactors(n, order, spatial, spatial_indices)\<close>. Its map
  \<^verbatim>\<open>std::map<unsigned, unsigned long> given = {{}}\<close> is list-initialized from an
  initializer list with one element, the value-initialized pair: it holds the single entry
  \<open>0 \<mapsto> 0\<close>, just as \<^verbatim>\<open>return {{}}\<close> in \<^verbatim>\<open>MultiplicativeSplitRecursive_\<close> and
  \<^verbatim>\<open>s = {{}}\<close> in \<^verbatim>\<open>cart_product\<close> are the vector holding one empty vector. The closing
  loop reverses every stored pair; its counter is an \<^verbatim>\<open>unsigned\<close> compared with the size.
\<close>

definition ResidualFactors ::
  "float_ops \<Rightarrow> ulong \<Rightarrow> nat \<Rightarrow> ulong list \<Rightarrow> ulong list
     \<Rightarrow> failure + (ulong list \<times> ulong list) list" where
  "ResidualFactors fp n order spatial spatial_indices =
     (case Residual_CalculateAllFactors n [] of
        Inl e \<Rightarrow> Inl e
      | Inr divisors \<Rightarrow>
     (case CalculateSpatialFactors fp n spatial divisors of
        Inl e \<Rightarrow> Inl e
      | Inr all_factors \<Rightarrow>
     (case GenerateResidual spatial n order of
        Inl e \<Rightarrow> Inl e
      | Inr residuals \<Rightarrow>
     (case EquationSolver n [(0, 0)] spatial_indices spatial
             (GenerateFactorProduct fp n all_factors n order) residuals of
        Inl e \<Rightarrow> Inl e
      | Inr solutions \<Rightarrow>
          if length solutions < 2 ^ 32
          then Inr (map (\<lambda>(f, r). (rev f, rev r)) solutions)
          else Inl Diverges))))"

text \<open>
  \<^verbatim>\<open>ResidualFactors::ResidualFactors(n, order, spatial, spatial_indices, given)\<close>:
  the validation loop of \<^verbatim>\<open>Factors\<close>, the candidate pools for \<open>n / partial_product\<close> and
  \<open>order - given.size()\<close>, and the solver with the entries left in \<^verbatim>\<open>given\<close>. There is no
  closing loop here: the pairs stay as the solver stored them.
\<close>

definition ResidualFactors_given ::
  "float_ops \<Rightarrow> ulong \<Rightarrow> nat \<Rightarrow> ulong list \<Rightarrow> ulong list \<Rightarrow> index_map
     \<Rightarrow> failure + (ulong list \<times> ulong list) list" where
  "ResidualFactors_given fp n order spatial spatial_indices given =
     (if length given > order then Inl AssertionFailed
      else case accumulate_given n 1 given of
        Inl e \<Rightarrow> Inl e
      | Inr (partial_product, kept) \<Rightarrow>
     (case Residual_CalculateAllFactors n [] of
        Inl e \<Rightarrow> Inl e
      | Inr divisors \<Rightarrow>
     (case CalculateSpatialFactors fp n spatial divisors of
        Inl e \<Rightarrow> Inl e
      | Inr all_factors \<Rightarrow>
          if partial_product = 0 then Inl DivideByZero
          else
     (case GenerateResidual spatial (n div partial_product) (order - length kept) of
        Inl e \<Rightarrow> Inl e
      | Inr residuals \<Rightarrow>
          EquationSolver n kept spatial_indices spatial
            (GenerateFactorProduct fp n all_factors (n div partial_product) (order - length kept))
            residuals))))"

text \<open>
  The values the two floating-point expressions have in real arithmetic,
  \<open>\<lfloor>\<surd>n + 1.5\<rfloor>\<close> and \<open>s \<cdot> n \<cdot> \<lceil>n / s\<rceil>\<close>. On operands as small as those of the examples below
  the \<^verbatim>\<open>double\<close> computation is exact and gives these values.
\<close>

definition ideal_float :: float_ops where
  "ideal_float =
     \<lparr> sqrt_bound = (\<lambda>n. word_of_nat ((length (filter (\<lambda>m. m * m \<le> 4 * unat n) [1..<Suc (4 * unat n)]) + 3) div 2)),
       spatial_multiple = (\<lambda>s n. s * n * word_of_nat ((unat n + unat s - 1) div unat s)) \<rparr>"

section \<open>Notions of the specification\<close>



text \<open>
  A tuple is within the maxima when no position named in the map holds a value above its
  maximum.
\<close>

definition within_max :: "index_map \<Rightarrow> ulong list \<Rightarrow> bool" where
  "within_max mx t = list_all (\<lambda>(ix, m). ix < length t \<longrightarrow> t ! ix \<le> m) mx"

declare isqrt_seek.simps [simp del] isqrt_loop.simps [simp del] count_from.simps [simp del]
  count_from32.simps [simp del] smallest_factor_loop.simps [simp del] tiling_factors.simps [simp del]

section \<open>Counting loops\<close>

lemma count_from_eq:
  "hi \<noteq> - 1 \<Longrightarrow> count_from i hi = Some (map word_of_nat [unat i..<Suc (unat hi)])"
proof (induction i hi rule: count_from.induct)
  case (1 i hi)
  show ?case
  proof (cases "i \<le> hi")
    case False
    then have "unat hi < unat i" by (simp add: word_le_nat_alt)
    with False show ?thesis by (simp add: count_from.simps [of i hi])
  next
    case True
    have "i \<noteq> - 1" using True "1.prems" by (metis word_order.extremum_unique)
    then have nz: "i + 1 \<noteq> 0" by (metis add.commute add_eq_0_iff)
    then have suc: "unat (i + 1) = Suc (unat i)" by (metis add.commute unatSuc)
    from True have "unat i < Suc (unat hi)" by (simp add: word_le_nat_alt)
    then have "[unat i..<Suc (unat hi)] = unat i # [Suc (unat i)..<Suc (unat hi)]"
      by (rule upt_conv_Cons)
    with "1.IH" [OF True nz "1.prems"] True nz suc show ?thesis
      by (simp add: count_from.simps [of i hi])
  qed
qed

lemma count_from_set:
  assumes "count_from i hi = Some js"
  shows "set js = {j. i \<le> j \<and> j \<le> hi}"
  using assms
proof (induction i hi arbitrary: js rule: count_from.induct)
  case (1 i hi)
  show ?case
  proof (cases "i \<le> hi")
    case False
    with "1.prems" have "js = []" by (simp add: count_from.simps [of i hi])
    with False show ?thesis by auto
  next
    case True
    with "1.prems" have nz: "i + 1 \<noteq> 0"
      by (auto simp: count_from.simps [of i hi] split: if_splits)
    with True "1.prems" obtain ks where ks: "count_from (i + 1) hi = Some ks" "js = i # ks"
      by (auto simp: count_from.simps [of i hi])
    from "1.IH" [OF True nz ks(1)] have "set ks = {j. i + 1 \<le> j \<and> j \<le> hi}" .
    moreover have "i \<noteq> - 1"
    proof
      assume "i = - 1"
      then have "i + 1 = 0" by simp
      with nz show False by simp
    qed
    then have "\<And>j. i + 1 \<le> j \<longleftrightarrow> i < j"
      by (simp add: inc_less_eq_iff)
    ultimately have "set js = insert i {j. i < j \<and> j \<le> hi}"
      using ks(2) by simp
    also have "\<dots> = {j. i \<le> j \<and> j \<le> hi}"
      using True by (auto simp: less_le)
    finally show ?thesis .
  qed
qed





section \<open>The integer square root\<close>

text \<open>
  \<^verbatim>\<open>ISqrt_\<close> never returns more than \<open>2\<^sup>3\<^sup>1\<close>, so the trial-division loop, whose
  bound it is, ends for every \<open>n\<close>. It returns the integer square root of every operand
  below \<open>2\<^sup>3\<^sup>2\<close> (\<open>ISqrt_correct\<close>): its first bit \<^verbatim>\<open>1 << 30\<close> is the highest power of four
  of a 32-bit operand. For \<open>2\<^sup>3\<^sup>2\<close> it returns 65535.
\<close>

lemma drop_bit_le_self: "drop_bit k (w :: ulong) \<le> w"
proof -
  have "unat (drop_bit k w) = unat w div 2 ^ k"
    unfolding unat_drop_bit_eq by (simp add: drop_bit_eq_div)
  then show ?thesis by (simp add: word_le_nat_alt div_le_dividend)
qed

lemma isqrt_seek_le: "one \<le> 1073741824 \<Longrightarrow> isqrt_seek one op \<le> 1073741824"
proof (induction one op rule: isqrt_seek.induct)
  case (1 one op)
  show ?case
  proof (cases "one > op")
    case True
    have "drop_bit 2 one \<le> 1073741824" using drop_bit_le_self [of 2 one] "1.prems" by simp
    with "1.IH" [OF True] True show ?thesis by (simp add: isqrt_seek.simps [of one op])
  next
    case False
    with "1.prems" show ?thesis by (simp add: isqrt_seek.simps [of one op])
  qed
qed

lemma isqrt_loop_le:
  "one \<le> 1073741824 \<Longrightarrow> res \<le> 2147483648 \<Longrightarrow> isqrt_loop op res one \<le> 2147483648"
proof (induction op res one rule: isqrt_loop.induct)
  case (1 op res one)
  have one': "drop_bit 2 one \<le> 1073741824" using drop_bit_le_self [of 2 one] "1.prems"(1) by simp
  have u1: "unat one \<le> 1073741824" using "1.prems"(1) by (simp add: word_le_nat_alt)
  have u2: "unat res \<le> 2147483648" using "1.prems"(2) by (simp add: word_le_nat_alt)
  have "unat (2 * one) = 2 * unat one"
    using u1 by (simp add: unat_word_ariths)
  then have "unat (res + 2 * one) = unat res + 2 * unat one"
    using u1 u2 by (simp add: unat_word_ariths)
  moreover have "unat (drop_bit 1 (res + push_bit 1 one)) = unat (res + 2 * one) div 2"
    unfolding unat_drop_bit_eq by (simp add: drop_bit_eq_div push_bit_eq_mult mult.commute)
  ultimately have "unat (drop_bit 1 (res + push_bit 1 one)) \<le> 2147483648"
    using u1 u2 by linarith
  then have r1: "drop_bit 1 (res + push_bit 1 one) \<le> 2147483648"
    by (simp add: word_le_nat_alt)
  have r2: "drop_bit 1 res \<le> 2147483648" using drop_bit_le_self [of 1 res] "1.prems"(2) by simp
  show ?case
  proof (cases "one = 0")
    case True
    with "1.prems" show ?thesis by (simp add: isqrt_loop.simps [of op res 0])
  next
    case False
    show ?thesis
    proof (cases "op \<ge> res + one")
      case True
      with "1.IH"(1) [OF False True one' r1] False show ?thesis
        by (simp add: isqrt_loop.simps [of op res one])
    next
      case F2: False
      with "1.IH"(2) [OF False F2 one' r2] False show ?thesis
        by (simp add: isqrt_loop.simps [of op res one])
    qed
  qed
qed

lemma ISqrt_le: "ISqrt x \<le> 2147483648"
  unfolding ISqrt_def by (rule isqrt_loop_le) (simp_all add: isqrt_seek_le)

lemma ISqrt_not_max: "ISqrt x \<noteq> - 1"
proof
  assume "ISqrt x = - 1"
  with ISqrt_le [of x] show False
    by (simp add: word_le_nat_alt unsigned_minus_1_eq_mask mask_eq_exp_minus_1)
qed

lemma ISqrt_0: "ISqrt 0 = 0"
  by (simp add: ISqrt_def isqrt_seek.simps isqrt_loop.simps)

lemma four_power: "(2 :: nat) ^ j * 2 ^ j = 4 ^ j"
  by (simp flip: power_mult_distrib)

lemma square_step: "(R + 2 ^ j) ^ 2 = R ^ 2 + 2 ^ Suc j * R + (4 :: nat) ^ j"
  by (simp add: power2_eq_square algebra_simps four_power)

lemma unat_drop_bit_2: "unat (drop_bit 2 (w :: ulong)) = unat w div 4"
  unfolding unat_drop_bit_eq by (simp add: drop_bit_eq_div)

lemma unat_drop_bit_1:
  "unat (drop_bit 1 (w :: ulong)) = unat w div 2"
  "unat (drop_bit (Suc 0) (w :: ulong)) = unat w div 2"
  unfolding unat_drop_bit_eq by (simp_all add: drop_bit_eq_div)

lemma isqrt_seek_power:
  "unat one = 4 ^ j \<Longrightarrow> unat x < 4 ^ Suc j \<Longrightarrow> x \<noteq> 0
     \<Longrightarrow> \<exists>i \<le> j. unat (isqrt_seek one x) = 4 ^ i \<and> 4 ^ i \<le> unat x \<and> unat x < 4 ^ Suc i"
proof (induction j arbitrary: one)
  case 0
  from "0.prems"(3) have "0 < unat x" by (simp add: unat_gt_0)
  with "0.prems"(1) have "\<not> one > x" by (simp add: word_less_nat_alt)
  then have "isqrt_seek one x = one" by (simp add: isqrt_seek.simps [of one x])
  with "0.prems" \<open>0 < unat x\<close> show ?case by simp
next
  case (Suc j)
  show ?case
  proof (cases "one > x")
    case True
    then have lt: "unat x < 4 ^ Suc j" using Suc.prems(1) by (simp add: word_less_nat_alt)
    have "unat (drop_bit 2 one) = 4 ^ j" using Suc.prems(1) by (simp add: unat_drop_bit_2)
    from Suc.IH [OF this lt Suc.prems(3)] obtain i where
      "i \<le> j" "unat (isqrt_seek (drop_bit 2 one) x) = 4 ^ i" "4 ^ i \<le> unat x" "unat x < 4 ^ Suc i"
      by blast
    moreover from True have "isqrt_seek one x = isqrt_seek (drop_bit 2 one) x"
      by (simp add: isqrt_seek.simps [of one x])
    ultimately show ?thesis by (metis le_Suc_eq)
  next
    case False
    then have "isqrt_seek one x = one" by (simp add: isqrt_seek.simps [of one x])
    moreover from False have "unat one \<le> unat x" by (simp add: word_less_nat_alt)
    ultimately show ?thesis using Suc.prems(1,2) by (intro exI [of _ "Suc j"]) simp
  qed
qed

lemma isqrt_loop_root:
  "unat one = 4 ^ j \<Longrightarrow> unat res = 2 ^ Suc j * R \<Longrightarrow> unat op + R ^ 2 = X
     \<Longrightarrow> X < (R + 2 ^ Suc j) ^ 2 \<Longrightarrow> X < 2 ^ 32 \<Longrightarrow> j \<le> 15
     \<Longrightarrow> (unat (isqrt_loop op res one)) ^ 2 \<le> X \<and> X < (unat (isqrt_loop op res one) + 1) ^ 2"
proof (induction j arbitrary: op res one R)
  case 0
  have one: "one = 1" using "0.prems"(1) by (simp add: word_unat_eq_iff)
  have fin: "\<And>a b. isqrt_loop a b (drop_bit 2 (1 :: ulong)) = b"
    by (simp add: isqrt_loop.simps [of _ _ 0] drop_bit_eq_div)
  have Rsq: "R ^ 2 \<le> X" using "0.prems"(3) by simp
  have "R ^ 2 < 2 ^ 32" using Rsq "0.prems"(5) by simp
  then have "R ^ 2 < (2 ^ 16) ^ 2" by simp
  then have Rb: "R < 2 ^ 16" by (rule power2_less_imp_less) simp
  have ures: "unat res = 2 * R" using "0.prems"(2) by simp
  have sum: "unat (res + 1) = 2 * R + 1"
    using unat_add_lem [of res 1] ures Rb by simp
  show ?case
  proof (cases "op \<ge> res + one")
    case True
    then have ge: "2 * R + 1 \<le> unat op" using sum one by (simp add: word_le_nat_alt)
    have "unat (res + push_bit 1 1) = 2 * R + 2"
      using unat_add_lem [of res 2] ures Rb by (simp add: push_bit_eq_mult)
    then have r': "unat (drop_bit 1 (res + push_bit 1 1)) = R + 1" by (simp add: unat_drop_bit_1)
    have "isqrt_loop op res one = drop_bit 1 (res + push_bit 1 1)"
      using True one fin by (simp add: isqrt_loop.simps [of op res 1])
    with r' have "unat (isqrt_loop op res one) = R + 1" by simp
    moreover have "(R + 1) ^ 2 \<le> X" using ge "0.prems"(3) by (simp add: power2_eq_square)
    moreover have "X < (R + 1 + 1) ^ 2" using "0.prems"(4) by (simp add: add.assoc)
    ultimately show ?thesis by simp
  next
    case False
    then have lt: "unat op < 2 * R + 1" using sum one by (simp add: word_le_nat_alt)
    have "isqrt_loop op res one = drop_bit 1 res"
      using False one fin by (simp add: isqrt_loop.simps [of op res 1])
    then have "unat (isqrt_loop op res one) = R" using ures by (simp add: unat_drop_bit_1)
    moreover have "X < (R + 1) ^ 2" using lt "0.prems"(3) by (simp add: power2_eq_square)
    ultimately show ?thesis using Rsq by simp
  qed
next
  case (Suc j)
  define b :: nat where "b = 2 ^ j"
  define c :: nat where "c = b * R"
  define d :: nat where "d = b * b"
  have pw: "(2 :: nat) ^ Suc j = 2 * b" "(2 :: nat) ^ Suc (Suc j) = 4 * b"
    "(4 :: nat) ^ j = d" "(4 :: nat) ^ Suc j = 4 * d"
    using four_power [of j] by (simp_all add: b_def d_def)
  have Rsq: "R ^ 2 \<le> X" using Suc.prems(3) by simp
  have "R ^ 2 < (2 ^ 16) ^ 2" using Rsq Suc.prems(5) by simp
  then have Rb: "R < 2 ^ 16" by (rule power2_less_imp_less) simp
  have j14: "j \<le> 14" "j \<le> 15" using Suc.prems(6) by simp_all
  have "(2 :: nat) ^ j \<le> 2 ^ 14" using j14(1) by (intro power_increasing) simp_all
  then have b14: "b \<le> 2 ^ 14" by (simp add: b_def)
  have "b * R \<le> 2 ^ 14 * 2 ^ 16" using b14 Rb by (intro mult_mono) simp_all
  then have cb: "c \<le> 2 ^ 30" by (simp add: c_def)
  have "b * b \<le> 2 ^ 14 * 2 ^ 14" using b14 by (intro mult_mono) simp_all
  then have db: "d \<le> 2 ^ 28" by (simp add: d_def)
  have ures: "unat res = 4 * c" using Suc.prems(2) pw(2) by (simp add: c_def)
  have uone: "unat one = 4 * d" using Suc.prems(1) pw(4) by simp
  have nz: "one \<noteq> 0"
  proof
    assume "one = 0"
    with Suc.prems(1) show False by simp
  qed
  have sum: "unat (res + one) = 4 * c + 4 * d"
    using unat_add_lem [of res one] ures uone cb db by simp
  have one': "unat (drop_bit 2 one) = 4 ^ j" using uone pw(3) by (simp add: unat_drop_bit_2)
  have sq: "(R + 2 * b) ^ 2 = R ^ 2 + 4 * c + 4 * d"
    by (simp add: power2_eq_square algebra_simps c_def d_def)
  have upper: "X < (R + 4 * b) ^ 2" using Suc.prems(4) pw(2) by simp
  show ?case
  proof (cases "op \<ge> res + one")
    case True
    then have ge: "4 * c + 4 * d \<le> unat op" using sum by (simp add: word_le_nat_alt)
    have uop: "unat (op - (res + one)) = unat op - (4 * c + 4 * d)"
      using True sum by (simp add: unat_sub)
    have "unat (2 * one) = 8 * d"
      using unat_mult_lem [of 2 one] uone db by simp
    then have "unat (res + 2 * one) = 4 * c + 8 * d"
      using unat_add_lem [of res "2 * one"] ures cb db by simp
    then have "unat (drop_bit 1 (res + push_bit 1 one)) = 2 * c + 4 * d"
      by (simp add: unat_drop_bit_1 push_bit_eq_mult mult.commute)
    also have "\<dots> = 2 * b * (R + 2 * b)" by (simp add: algebra_simps c_def d_def)
    finally have r': "unat (drop_bit 1 (res + push_bit 1 one)) = 2 ^ Suc j * (R + 2 * b)"
      using pw(1) by simp
    have inv: "unat (op - (res + one)) + (R + 2 * b) ^ 2 = X"
      using uop ge Suc.prems(3) sq by simp
    have up: "X < (R + 2 * b + 2 ^ Suc j) ^ 2" using upper pw(1) by (simp add: add.assoc)
    have "isqrt_loop op res one
        = isqrt_loop (op - (res + one)) (drop_bit 1 (res + push_bit 1 one)) (drop_bit 2 one)"
      using True nz by (simp add: isqrt_loop.simps [of op res one])
    with Suc.IH [OF one' r' inv up Suc.prems(5) j14(2)] show ?thesis by simp
  next
    case False
    then have lt: "unat op < 4 * c + 4 * d" using sum by (simp add: word_le_nat_alt)
    have "unat (drop_bit 1 res) = 2 * c" using ures by (simp add: unat_drop_bit_1)
    then have r': "unat (drop_bit 1 res) = 2 ^ Suc j * R" using pw(1) by (simp add: c_def)
    have "X < (R + 2 * b) ^ 2" using lt Suc.prems(3) sq by simp
    then have up: "X < (R + 2 ^ Suc j) ^ 2" using pw(1) by simp
    have "isqrt_loop op res one = isqrt_loop op (drop_bit 1 res) (drop_bit 2 one)"
      using False nz by (simp add: isqrt_loop.simps [of op res one])
    with Suc.IH [OF one' r' Suc.prems(3) up Suc.prems(5) j14(2)] show ?thesis by simp
  qed
qed

lemma ISqrt_correct:
  assumes "x < 2 ^ 32"
  shows "(unat (ISqrt x)) ^ 2 \<le> unat x \<and> unat x < (unat (ISqrt x) + 1) ^ 2"
proof (cases "x = 0")
  case True
  then show ?thesis by (simp add: ISqrt_0)
next
  case False
  from assms have ux: "unat x < 2 ^ 32" by (simp add: word_less_nat_alt)
  have "unat (push_bit 30 1 :: ulong) = 4 ^ 15" by simp
  moreover have "unat x < 4 ^ Suc 15" using ux by simp
  ultimately obtain i where i: "i \<le> 15" "unat (isqrt_seek (push_bit 30 1) x) = 4 ^ i"
    "4 ^ i \<le> unat x" "unat x < 4 ^ Suc i"
    using isqrt_seek_power [of "push_bit 30 1" 15 x] False by blast
  have "unat x < (0 + 2 ^ Suc i) ^ 2" using i(4) four_power [of "Suc i"]
    by (simp add: power2_eq_square)
  from isqrt_loop_root [OF i(2) _ _ this ux i(1), of 0] show ?thesis
    by (simp add: ISqrt_def)
qed

lemma drop_bit_2_1: "drop_bit 2 (1 :: ulong) = 0"
  by (simp add: drop_bit_eq_div word_unat_eq_iff unat_div)

lemma ISqrt_1: "ISqrt 1 = 1"
  by (simp add: ISqrt_def isqrt_seek.simps isqrt_loop.simps drop_bit_2_1)

lemma ISqrt_two_to_32: "ISqrt 4294967296 = 65535"
  by (simp add: ISqrt_def isqrt_seek.simps isqrt_loop.simps)

section \<open>The divisor list\<close>

text \<open>
  The list \<^verbatim>\<open>all_factors_\<close> of \<^verbatim>\<open>Factors\<close>: what it holds in terms of \<^verbatim>\<open>ISqrt_\<close>, that it
  never holds 0 (the remainders \<^verbatim>\<open>n % (*factor)\<close> of the recursion do not trap), and that
  for \<open>1 \<le> n < 2\<^sup>3\<^sup>2\<close> its elements are exactly the divisors of \<open>n\<close>
  (\<open>divisors_exact_below_32_bits\<close>).
\<close>

lemma CalculateAllFactors_eq:
  "CalculateAllFactors n = Inr (concat (map (divisor_step n) (map word_of_nat [1..<Suc (unat (ISqrt n))])))"
  by (simp add: CalculateAllFactors_def count_from_eq [OF ISqrt_not_max])

lemma CalculateAllFactors_set:
  "\<exists>fs. CalculateAllFactors n = Inr fs
        \<and> set fs = (\<Union>j\<in>{j. 1 \<le> j \<and> j \<le> ISqrt n}. set (divisor_step n j))"
proof -
  obtain js where js: "count_from 1 (ISqrt n) = Some js"
    using count_from_eq [OF ISqrt_not_max] by blast
  then have "set js = {j. 1 \<le> j \<and> j \<le> ISqrt n}" by (rule count_from_set)
  with js show ?thesis by (simp add: CalculateAllFactors_def)
qed

lemma CalculateAllFactors_total: "\<exists>fs. CalculateAllFactors n = Inr fs"
  using CalculateAllFactors_set by blast

lemma CalculateAllFactors_0: "CalculateAllFactors 0 = Inr []"
  by (simp add: CalculateAllFactors_def ISqrt_0 count_from.simps)

lemma CalculateAllFactors_1: "CalculateAllFactors 1 = Inr [1]"
  by (simp add: CalculateAllFactors_def ISqrt_1 count_from.simps divisor_step_def word_le_nat_alt)

lemma CalculateAllFactors_12: "CalculateAllFactors 12 = Inr [1, 12, 2, 6, 3, 4]"
  by (simp add: CalculateAllFactors_def ISqrt_def isqrt_seek.simps isqrt_loop.simps
      count_from.simps divisor_step_def)

lemma word_div_nonzero:
  "g mod i = 0 \<Longrightarrow> g \<noteq> 0 \<Longrightarrow> g div i \<noteq> 0" for g i :: ulong
  using div_mult_mod_eq [of g i] by auto

lemma divisor_step_nonzero:
  "x \<in> set (divisor_step n j) \<Longrightarrow> j \<noteq> 0 \<Longrightarrow> n \<noteq> 0 \<Longrightarrow> x \<noteq> 0"
  by (auto simp: divisor_step_def split: if_splits del: mod_0_imp_dvd dest: word_div_nonzero)

lemma CalculateAllFactors_nonzero:
  assumes "CalculateAllFactors n = Inr fs"
  shows "0 \<notin> set fs"
proof (cases "n = 0")
  case True
  with assms show ?thesis by (simp add: CalculateAllFactors_0)
next
  case False
  from assms CalculateAllFactors_set [of n]
  have "set fs = (\<Union>j\<in>{j. 1 \<le> j \<and> j \<le> ISqrt n}. set (divisor_step n j))" by simp
  moreover have "j \<noteq> 0" if "1 \<le> j" for j :: ulong using that by auto
  ultimately show ?thesis using False by (auto dest: divisor_step_nonzero)
qed

lemma unat_dvd_iff: "n mod j = 0 \<longleftrightarrow> unat j dvd unat n" for n j :: ulong
proof
  assume "n mod j = 0"
  then have "unat n mod unat j = 0" by (metis unat_mod unat_0)
  then show "unat j dvd unat n" by (simp add: dvd_eq_mod_eq_0)
next
  assume "unat j dvd unat n"
  then have "unat (n mod j) = 0" by (simp add: unat_mod dvd_eq_mod_eq_0)
  then show "n mod j = 0" by (simp add: unat_eq_0)
qed

lemma unat_word_of_nat_small: "d < 2 ^ 64 \<Longrightarrow> unat (word_of_nat d :: ulong) = d"
  by (simp add: unat_of_nat)

lemma divisor_step_sound:
  assumes "x \<in> set (divisor_step n j)"
  shows "unat x dvd unat n"
proof -
  from assms have dv: "n mod j = 0" and x: "x = j \<or> x = n div j"
    by (auto simp: divisor_step_def split: if_splits del: mod_0_imp_dvd)
  from dv have d: "unat j dvd unat n" by (simp add: unat_dvd_iff)
  from x show ?thesis
  proof
    assume "x = j" with d show ?thesis by simp
  next
    assume "x = n div j"
    then have "unat x = unat n div unat j" by (simp add: unat_div)
    moreover from d have "unat n div unat j * unat j = unat n" by (rule dvd_div_mult_self)
    then have "unat n div unat j dvd unat n" by (metis dvd_triv_left)
    ultimately show ?thesis by simp
  qed
qed

lemma divisors_exact_below_32_bits:
  assumes n1: "1 \<le> n" and n32: "n < 2 ^ 32" and fs: "CalculateAllFactors n = Inr fs"
  shows "unat ` set fs = {d. d dvd unat n}"
proof -
  let ?N = "unat n"
  let ?s = "unat (ISqrt n)"
  from n1 have Npos: "0 < ?N" by (simp add: word_le_nat_alt)
  from n32 have N32: "?N < 2 ^ 32" by (simp add: word_less_nat_alt)
  from ISqrt_correct [OF n32] have s: "?s ^ 2 \<le> ?N" "?N < (?s + 1) ^ 2" by simp_all
  from fs CalculateAllFactors_set [of n]
  have set_fs: "set fs = (\<Union>j\<in>{j. 1 \<le> j \<and> j \<le> ISqrt n}. set (divisor_step n j))" by simp
  have in_range: "1 \<le> (word_of_nat e :: ulong) \<and> word_of_nat e \<le> ISqrt n"
    if "1 \<le> e" "e \<le> ?s" for e
  proof -
    have "unat (ISqrt n) < 2 ^ LENGTH(64)" by (rule unsigned_less)
    then have "unat (ISqrt n) < 2 ^ 64" by simp
    with that(2) have "e < 2 ^ 64" by simp
    then have "unat (word_of_nat e :: ulong) = e" by (rule unat_word_of_nat_small)
    with that show ?thesis by (simp add: word_le_nat_alt)
  qed
  show ?thesis
  proof (intro set_eqI iffI)
    fix d assume "d \<in> unat ` set fs"
    then obtain x where "x \<in> set fs" "d = unat x" by blast
    with set_fs obtain j where "x \<in> set (divisor_step n j)" by auto
    from divisor_step_sound [OF this] \<open>d = unat x\<close> show "d \<in> {d. d dvd ?N}" by simp
  next
    fix d assume "d \<in> {d. d dvd ?N}"
    then have dv: "d dvd ?N" by simp
    from dvd_pos_nat [OF Npos dv] have dpos: "1 \<le> d" by simp
    from dv Npos have dle: "d \<le> ?N" by (rule dvd_imp_le)
    define e where "e = ?N div d"
    from dv have de: "d * e = ?N" by (simp add: e_def)
    have epos: "1 \<le> e" using de Npos by (cases e) simp_all
    have "e dvd ?N" using de by (metis dvd_triv_right)
    then have ele: "e \<le> ?N" using Npos by (rule dvd_imp_le)
    have e64: "e < 2 ^ 64" "d < 2 ^ 64" using ele dle N32 by simp_all
    show "d \<in> unat ` set fs"
    proof (cases "d \<le> ?s")
      case True
      let ?j = "word_of_nat d :: ulong"
      have uj: "unat ?j = d" using e64(2) by (rule unat_word_of_nat_small)
      from in_range [OF dpos True] have r: "1 \<le> ?j \<and> ?j \<le> ISqrt n" .
      from dv uj have "n mod ?j = 0" by (simp add: unat_dvd_iff)
      then have "?j \<in> set (divisor_step n ?j)" by (simp add: divisor_step_def)
      with r set_fs have "?j \<in> set fs" by blast
      with uj show ?thesis by (metis imageI)
    next
      case False
      then have ds: "?s + 1 \<le> d" by simp
      have es: "e \<le> ?s"
      proof (rule ccontr)
        assume "\<not> e \<le> ?s"
        then have "?s + 1 \<le> e" by simp
        with ds have "(?s + 1) * (?s + 1) \<le> d * e" by (rule mult_le_mono)
        with de s(2) show False by (simp add: power2_eq_square)
      qed
      let ?j = "word_of_nat e :: ulong"
      have uj: "unat ?j = e" using e64(1) by (rule unat_word_of_nat_small)
      from in_range [OF epos es] have r: "1 \<le> ?j \<and> ?j \<le> ISqrt n" .
      have "e dvd ?N" using de by (metis dvd_triv_right)
      with uj have m: "n mod ?j = 0" by (simp add: unat_dvd_iff)
      have "e < d" using es ds by simp
      then have "e * e < d * e" using epos by simp
      then have ee: "e * e < ?N" using de by simp
      have "?j * ?j \<noteq> n"
      proof
        assume "?j * ?j = n"
        then have "unat (?j * ?j) = ?N" by simp
        moreover have "unat ?j * unat ?j < 2 ^ 64" using uj ee N32 by simp
        then have "unat (?j * ?j) = e * e" using unat_mult_lem [of ?j ?j] uj by simp
        ultimately show False using ee by simp
      qed
      with m have "n div ?j \<in> set (divisor_step n ?j)" by (simp add: divisor_step_def)
      with r set_fs have "n div ?j \<in> set fs" by blast
      moreover have "?N div e = d * e div e" using de by simp
      then have "?N div e = d" using epos by simp
      then have "unat (n div ?j) = d" using uj by (simp add: unat_div)
      ultimately show ?thesis by (metis imageI)
    qed
  qed
qed

lemma divisor_65536_missing:
  assumes "CalculateAllFactors 4294967296 = Inr fs"
  shows "65536 \<notin> set fs"
proof
  assume "65536 \<in> set fs"
  with assms CalculateAllFactors_set [of 4294967296]
  obtain j :: ulong where j: "1 \<le> j" "j \<le> 65535" "65536 \<in> set (divisor_step 4294967296 j)"
    by (auto simp: ISqrt_two_to_32)
  from j(1,2) have u: "1 \<le> unat j" "unat j \<le> 65535" by (simp_all add: word_le_nat_alt)
  from j(3) have "65536 = j \<or> 65536 = (4294967296 :: ulong) div j"
    by (auto simp: divisor_step_def split: if_splits)
  then show False
  proof
    assume "65536 = j"
    with u(2) show False by simp
  next
    assume "65536 = (4294967296 :: ulong) div j"
    then have "unat (65536 :: ulong) = unat ((4294967296 :: ulong) div j)" by simp
    then have "(65536 :: nat) = 4294967296 div unat j" by (simp add: unat_div)
    moreover have "(4294967296 :: nat) div 65535 \<le> 4294967296 div unat j"
      using u by (intro div_le_mono2) simp_all
    ultimately show False by simp
  qed
qed

text \<open>
  Claim C3. The builder returns for every \<open>n\<close> (\<open>CalculateAllFactors_total\<close>), with the empty
  list for \<open>n = 0\<close>, \<open>[1]\<close> for \<open>n = 1\<close> and the six divisors of 12; every member divides
  \<open>n\<close>, and for \<open>1 \<le> n < 2\<^sup>3\<^sup>2\<close> the members are exactly the divisors. Not for every
  \<open>n \<ge> 1\<close>, though: \<^verbatim>\<open>ISqrt_\<close> starts from the bit \<^verbatim>\<open>1 << 30\<close> whatever the operand, returns
  65535 for \<open>n = 2\<^sup>3\<^sup>2\<close>, and the trial division stops below the divisor 65536, which the
  list then lacks.
\<close>

theorem divisors_incomplete_above_32_bits:
  "\<exists>fs. CalculateAllFactors 4294967296 = Inr fs \<and> 65536 \<notin> set fs
        \<and> (4294967296 :: ulong) mod 65536 = 0"
proof -
  obtain fs where fs: "CalculateAllFactors 4294967296 = Inr fs"
    using CalculateAllFactors_total by blast
  with divisor_65536_missing show ?thesis by simp
qed

section \<open>The ordered factorizations\<close>

lemma split_no_factors:
  "2 \<le> k \<Longrightarrow> MultiplicativeSplitRecursive [] n k = []"
proof -
  assume "2 \<le> k"
  then obtain j where "k = Suc (Suc j)"
    by (metis Suc_le_D numeral_2_eq_2 Suc_le_mono)
  then show ?thesis by simp
qed

lemma split_length:
  "v \<in> set (MultiplicativeSplitRecursive fs n k) \<Longrightarrow> length v = k"
  by (induction fs n k arbitrary: v rule: MultiplicativeSplitRecursive.induct)
     (auto split: if_splits del: mod_0_imp_dvd)

lemma word_div_mult_cancel:
  "n mod f = 0 \<Longrightarrow> n div f * f = n" for n f :: ulong
  using div_mult_mod_eq [of n f] by simp

lemma split_product:
  "v \<in> set (MultiplicativeSplitRecursive fs n (Suc k)) \<Longrightarrow> prod_list v = n"
proof (induction fs n "Suc k" arbitrary: v k rule: MultiplicativeSplitRecursive.induct)
  case (2 fs n)
  then show ?case by simp
next
  case (3 fs n k)
  from "3.prems" obtain f u where f: "f \<in> set fs" "n mod f = 0"
      "u \<in> set (MultiplicativeSplitRecursive fs (n div f) (Suc k))" "v = u @ [f]"
    by (auto split: if_splits del: mod_0_imp_dvd)
  from "3.hyps" [OF f(1,2) f(3)] have "prod_list u = n div f" by simp
  with f(2,4) show ?case by (simp add: word_div_mult_cancel)
qed

lemma split_product_nat:
  "v \<in> set (MultiplicativeSplitRecursive fs n (Suc k)) \<Longrightarrow> prod_list (map unat v) = unat n"
proof (induction fs n "Suc k" arbitrary: v k rule: MultiplicativeSplitRecursive.induct)
  case (2 fs n)
  then show ?case by simp
next
  case (3 fs n k)
  from "3.prems" obtain f u where f: "f \<in> set fs" "n mod f = 0"
      "u \<in> set (MultiplicativeSplitRecursive fs (n div f) (Suc k))" "v = u @ [f]"
    by (auto split: if_splits del: mod_0_imp_dvd)
  from "3.hyps" [OF f(1,2) f(3)] have "prod_list (map unat u) = unat (n div f)" by simp
  moreover from f(2) have "unat n mod unat f = 0" by (metis unat_mod unat_0)
  then have "unat n div unat f * unat f = unat n"
    using div_mult_mod_eq [of "unat n" "unat f"] by simp
  ultimately show ?case using f(4) by (simp add: unat_div)
qed

lemma split_order_2:
  "set (MultiplicativeSplitRecursive fs n 2) = {[n div f, f] | f. f \<in> set fs \<and> n mod f = 0}"
  by (auto simp: numeral_2_eq_2 del: mod_0_imp_dvd)

lemma split_2_eq:
  "MultiplicativeSplitRecursive fs n 2 = concat (map (\<lambda>f. if n mod f = 0 then [[n div f, f]] else []) fs)"
  by (simp add: numeral_2_eq_2 cong: if_cong)

lemma Factors_12_2: "Factors 12 2 = Inr [[12, 1], [1, 12], [6, 2], [2, 6], [4, 3], [3, 4]]"
  by (simp add: Factors_def CalculateAllFactors_12 split_2_eq)

lemma split_complete:
  assumes complete: "\<And>f. unat f dvd N \<Longrightarrow> f \<in> set fs"
  shows "unat m dvd N \<Longrightarrow> m \<noteq> 0 \<Longrightarrow> length v = Suc k \<Longrightarrow> prod_list (map unat v) = unat m
           \<Longrightarrow> v \<in> set (MultiplicativeSplitRecursive fs m (Suc k))"
proof (induction k arbitrary: v m)
  case 0
  then obtain x where v: "v = [x]" by (cases v) auto
  with "0.prems"(4) have "x = m" by (simp add: word_unat_eq_iff)
  with v show ?case by simp
next
  case (Suc k)
  from Suc.prems(3) have "v \<noteq> []" by auto
  then obtain u f where v: "v = u @ [f]" by (metis rev_exhaust)
  with Suc.prems(3) have lu: "length u = Suc k" by simp
  from Suc.prems(4) v have prod: "prod_list (map unat u) * unat f = unat m" by simp
  from Suc.prems(2) have mpos: "0 < unat m" by (simp add: unat_gt_0)
  have fdvd: "unat f dvd unat m" using prod by (metis dvd_triv_right)
  then have "unat f dvd N" using Suc.prems(1) by (rule dvd_trans)
  then have fin: "f \<in> set fs" by (rule complete)
  from fdvd have fm: "m mod f = 0" by (simp add: unat_dvd_iff)
  have fpos: "0 < unat f" using prod mpos by (cases "unat f") simp_all
  have "unat m div unat f = prod_list (map unat u) * unat f div unat f" using prod by simp
  then have q: "unat (m div f) = prod_list (map unat u)" using fpos by (simp add: unat_div)
  have "prod_list (map unat u) dvd unat m" using prod by (metis dvd_triv_left)
  with q have "unat (m div f) dvd N" using Suc.prems(1) by (metis dvd_trans)
  moreover have "m div f \<noteq> 0"
  proof
    assume "m div f = 0"
    with q have "prod_list (map unat u) = 0" by simp
    with prod mpos show False by simp
  qed
  ultimately have "u \<in> set (MultiplicativeSplitRecursive fs (m div f) (Suc k))"
    using lu q by (intro Suc.IH) simp_all
  with fin fm v show ?case by (auto del: mod_0_imp_dvd intro!: bexI [of _ f])
qed

lemma factorizations_exact_below_32_bits:
  assumes n1: "1 \<le> n" and n32: "n < 2 ^ 32" and cs: "Factors n k = Inr cs" and k1: "1 \<le> k"
  shows "set cs = {v. length v = k \<and> prod_list (map unat v) = unat n}"
proof -
  obtain fs where fs: "CalculateAllFactors n = Inr fs" using CalculateAllFactors_total by blast
  with cs have cs_eq: "cs = MultiplicativeSplitRecursive fs n k" by (simp add: Factors_def)
  from k1 obtain k' where k: "k = Suc k'" by (cases k) simp_all
  from divisors_exact_below_32_bits [OF n1 n32 fs]
  have ex: "unat ` set fs = {d. d dvd unat n}" .
  have complete: "f \<in> set fs" if "unat f dvd unat n" for f
  proof -
    from that ex obtain g where g: "g \<in> set fs" "unat g = unat f" by (metis imageE mem_Collect_eq)
    then have "g = f" by (simp add: word_unat_eq_iff)
    with g(1) show ?thesis by simp
  qed
  from n1 have nz: "n \<noteq> 0" by auto
  show ?thesis
  proof (intro set_eqI iffI)
    fix v assume "v \<in> set cs"
    with cs_eq k show "v \<in> {v. length v = k \<and> prod_list (map unat v) = unat n}"
      by (simp add: split_length split_product_nat)
  next
    fix v :: "ulong list"
    assume "v \<in> {v. length v = k \<and> prod_list (map unat v) = unat n}"
    then have "length v = Suc k'" "prod_list (map unat v) = unat n" using k by simp_all
    from split_complete [of "unat n" fs n v k', OF complete _ nz this]
    show "v \<in> set cs" using cs_eq k by simp
  qed
qed

text \<open>
  Claim C1. Every tuple of \<open>Factors(n, k)\<close> has \<open>k\<close> entries (\<open>split_length\<close>) whose product
  is \<open>n\<close> for \<open>k \<ge> 1\<close>, without overflow (\<open>split_product\<close>, \<open>split_product_nat\<close>), and for
  \<open>1 \<le> n < 2\<^sup>3\<^sup>2\<close> the collection holds exactly the ordered factorizations of \<open>n\<close> into
  \<open>k\<close> parts (\<open>factorizations_exact_below_32_bits\<close>). Not for every \<open>n \<ge> 1\<close>: for
  \<open>n = 2\<^sup>3\<^sup>2\<close> and \<open>k = 2\<close> the factorization \<open>65536 \<cdot> 65536\<close> is not in the collection,
  since the divisor list lacks 65536.
\<close>

theorem factorization_missing_above_32_bits:
  "\<exists>cs. Factors 4294967296 2 = Inr cs \<and> [65536, 65536] \<notin> set cs
        \<and> length [65536, 65536 :: ulong] = 2
        \<and> prod_list [65536, 65536] = (4294967296 :: ulong)"
proof -
  obtain fs where fs: "CalculateAllFactors 4294967296 = Inr fs"
    using CalculateAllFactors_total by blast
  then have "65536 \<notin> set fs" by (rule divisor_65536_missing)
  then have "[65536, 65536] \<notin> set (MultiplicativeSplitRecursive fs 4294967296 2)"
    unfolding split_order_2 by auto
  with fs show ?thesis by (simp add: Factors_def)
qed

text \<open>
  Claim C9. For \<open>n = 0\<close> the divisor list is empty; so \<open>Factors(0, k)\<close> is the empty
  collection for every order \<open>k \<ge> 2\<close>, while \<open>Factors(0, 1)\<close> holds the single tuple
  \<open>[0]\<close>, the order-1 base case returning the residue without any check.
\<close>

theorem Factors_of_zero:
  "CalculateAllFactors 0 = Inr []
   \<and> Factors 0 1 = Inr [[0]]
   \<and> (2 \<le> k \<longrightarrow> Factors 0 k = Inr [])"
  by (simp add: Factors_def CalculateAllFactors_0 split_no_factors)

theorem Factors_of_zero_witness:
  "(2::nat) \<le> 3 \<and> Factors 0 3 = Inr []"
  using Factors_of_zero [of 3] by simp

section \<open>Factors with a Given Assignment\<close>

text \<open>
  When the validation loop accepts every entry, and at least one position is left free,
  each tuple has \<open>order\<close> entries with product \<open>n\<close> and carries every given value at its
  declared position (\<open>Factors_given_all_accepted\<close>).
\<close>

lemma accumulate_given_kept:
  "accumulate_given n pp given = Inr (pp', kept)
     \<Longrightarrow> set kept \<subseteq> set given \<and> length kept \<le> length given"
proof (induction n pp given arbitrary: pp' kept rule: accumulate_given.induct)
  case (1 n pp)
  then show ?case by simp
next
  case (2 n pp ix factor rest)
  show ?case
  proof (cases "n mod (factor * pp) = 0")
    case True
    with "2.prems" obtain kept' where
      k: "accumulate_given n (pp * factor) rest = Inr (pp', kept')" "kept = (ix, factor) # kept'"
      and nz: "factor * pp \<noteq> 0"
      by (auto split: if_splits sum.splits)
    from "2.IH"(1) [OF nz True _ k(1)] True k(2) show ?thesis
      by (auto simp: mult.commute)
  next
    case False
    with "2.prems" obtain skipped rest' kept' where
      k: "rest = skipped # rest'" "accumulate_given n pp rest' = Inr (pp', kept')"
         "kept = skipped # kept'"
      and nz: "factor * pp \<noteq> 0" and a: "\<not> n mod pp \<noteq> 0"
      by (auto split: if_splits sum.splits list.splits)
    from "2.IH"(2) [OF nz False a k(1) k(2)] k(1,3) show ?thesis by auto
  qed
qed

lemma accumulate_given_all_kept:
  "accumulate_given n pp g = Inr (pp', kept) \<Longrightarrow> length kept = length g \<Longrightarrow> n mod pp = 0
     \<Longrightarrow> kept = g \<and> pp' = pp * prod_list (map snd g) \<and> n mod pp' = 0"
proof (induction n pp g arbitrary: pp' kept rule: accumulate_given.induct)
  case (1 n pp)
  then show ?case by simp
next
  case (2 n pp ix factor rest)
  show ?case
  proof (cases "n mod (factor * pp) = 0")
    case True
    with "2.prems"(1) obtain kept' where
      k: "accumulate_given n (pp * factor) rest = Inr (pp', kept')" "kept = (ix, factor) # kept'"
      and nz: "factor * pp \<noteq> 0"
      by (auto split: if_splits sum.splits)
    from True have t: "n mod (pp * factor) = 0" by (simp add: mult.commute)
    from k(2) "2.prems"(2) have "length kept' = length rest" by simp
    from "2.IH"(1) [OF nz True _ k(1) this t] t k(2) show ?thesis
      by (auto simp: mult.assoc)
  next
    case False
    with "2.prems"(1) obtain skipped rest' kept' where
      k: "rest = skipped # rest'" "accumulate_given n pp rest' = Inr (pp', kept')"
         "kept = skipped # kept'"
      by (auto split: if_splits sum.splits list.splits)
    from accumulate_given_kept [OF k(2)] have "length kept' \<le> length rest'" by simp
    with k(1,3) "2.prems"(2) show ?thesis by simp
  qed
qed

lemma prod_list_insert:
  "prod_list (take ix u @ val # drop ix u) = prod_list u * val" for u :: "ulong list"
proof -
  have "prod_list (take ix u @ drop ix u) = prod_list (take ix u) * prod_list (drop ix u)"
    by (rule prod_list.append)
  then have split: "prod_list (take ix u) * prod_list (drop ix u) = prod_list u"
    by (simp only: append_take_drop_id)
  have "prod_list (take ix u @ val # drop ix u)
      = (prod_list (take ix u) * prod_list (drop ix u)) * val" by (simp add: mult_ac)
  with split show ?thesis by simp
qed

lemma insert_given_length_product:
  "insert_given g u = Inr w
     \<Longrightarrow> length w = length u + length g \<and> prod_list w = prod_list u * prod_list (map snd g)"
proof (induction g arbitrary: u)
  case Nil
  then show ?case by simp
next
  case (Cons e g)
  obtain ix val where e: "e = (ix, val)" by (cases e)
  with Cons.prems have s: "insert_given g (take ix u @ val # drop ix u) = Inr w"
    and ok: "ix \<le> length u" by (auto split: if_splits)
  from Cons.IH [OF s] have len: "length w = length (take ix u @ val # drop ix u) + length g"
    and pr: "prod_list w = prod_list (take ix u @ val # drop ix u) * prod_list (map snd g)"
    by simp_all
  from pr have "prod_list w = prod_list u * val * prod_list (map snd g)"
    unfolding prod_list_insert .
  moreover from len ok have "length w = length u + length (e # g)" by simp
  ultimately show ?case using e by (simp add: mult.assoc)
qed

lemma insert_given_keeps_front:
  "insert_given g u = Inr w \<Longrightarrow> \<forall>(ix, val) \<in> set g. k < ix \<Longrightarrow> k < length u \<Longrightarrow> w ! k = u ! k"
proof (induction g arbitrary: u)
  case Nil
  then show ?case by simp
next
  case (Cons e g)
  obtain ix val where e: "e = (ix, val)" by (cases e)
  with Cons.prems(1) have s: "insert_given g (take ix u @ val # drop ix u) = Inr w"
    and ok: "ix \<le> length u" by (auto split: if_splits)
  from Cons.prems(2) e have k: "k < ix" and rest: "\<forall>(ix, val) \<in> set g. k < ix" by auto
  from k ok have "(take ix u @ val # drop ix u) ! k = u ! k" by (simp add: nth_append)
  moreover from Cons.prems(3) have "k < length (take ix u @ val # drop ix u)" by simp
  ultimately show ?case using Cons.IH [OF s rest] by simp
qed

lemma insert_given_positions:
  "insert_given g u = Inr w \<Longrightarrow> sorted_wrt (<) (map fst g) \<Longrightarrow> \<forall>(ix, val) \<in> set g. w ! ix = val"
proof (induction g arbitrary: u)
  case Nil
  then show ?case by simp
next
  case (Cons e g)
  obtain ix val where e: "e = (ix, val)" by (cases e)
  with Cons.prems(1) have s: "insert_given g (take ix u @ val # drop ix u) = Inr w"
    and ok: "ix \<le> length u" by (auto split: if_splits)
  from Cons.prems(2) e have later: "\<forall>(ix', val') \<in> set g. ix < ix'"
    and sorted: "sorted_wrt (<) (map fst g)" by auto
  from ok have "(take ix u @ val # drop ix u) ! ix = val" by (simp add: nth_append)
  moreover from ok have "ix < length (take ix u @ val # drop ix u)" by simp
  ultimately have "w ! ix = val" using insert_given_keeps_front [OF s later] by simp
  with Cons.IH [OF s sorted] e show ?case by simp
qed

lemma insert_given_all_member:
  "insert_given_all g us = Inr ws \<Longrightarrow> w \<in> set ws \<Longrightarrow> \<exists>u \<in> set us. insert_given g u = Inr w"
  by (induction us arbitrary: ws) (auto split: sum.splits)

lemma Factors_given_all_accepted:
  assumes ctor: "Factors_given n order given = Inr cs"
    and acc: "accumulate_given n 1 given = Inr (pp, kept)" and all: "length kept = length given"
    and free: "length given < order" and keys: "sorted_wrt (<) (map fst given)"
    and mem: "v \<in> set cs"
  shows "length v = order \<and> prod_list v = n \<and> (\<forall>(ix, val) \<in> set given. v ! ix = val)"
proof -
  have "n mod 1 = 0" by simp
  from accumulate_given_all_kept [OF acc all this] have kept: "kept = given"
    and pp: "n mod pp = 0" and ppv: "pp = prod_list (map snd given)" by auto
  obtain fs where fs: "CalculateAllFactors n = Inr fs" using CalculateAllFactors_total by blast
  from free obtain k where k: "order - length given = Suc k" by (cases "order - length given") auto
  from ctor acc fs kept k have
    ins: "insert_given_all given (MultiplicativeSplitRecursive fs (n div pp) (Suc k)) = Inr cs"
    by (auto simp: Factors_given_def split: if_splits)
  from insert_given_all_member [OF ins mem] obtain u where
    u: "u \<in> set (MultiplicativeSplitRecursive fs (n div pp) (Suc k))" "insert_given given u = Inr v"
    by blast
  from split_length [OF u(1)] split_product [OF u(1)] insert_given_length_product [OF u(2)]
  have "length v = Suc k + length given" "prod_list v = n div pp * pp" using ppv by simp_all
  with k free pp insert_given_positions [OF u(2) keys] show ?thesis
    by (simp add: word_div_mult_cancel)
qed

lemma Factors_given_example:
  "Factors_given 12 3 [(1, 4)] = Inr [[3, 4, 1], [1, 4, 3]]"
  by (simp add: Factors_given_def CalculateAllFactors_12 split_2_eq)

text \<open>
  Claim C4. With every given entry accepted the claim holds: \<open>Factors(12, 3, {1: 4})\<close> is
  \<open>(3,4,1), (1,4,3)\<close>. A rejected entry is not simply dropped: for
  \<open>given = {0: 5, 1: 4}\<close> the entry \<open>0: 5\<close> is erased and the loop steps over \<open>1: 4\<close>, which
  is inserted without having been divided out, so the six tuples have product 48; and for
  \<open>given = {1: 5}\<close> the loop increments the past-the-end iterator.
\<close>

theorem given_entry_skipped_after_erase:
  "Factors_given 12 3 [(0, 5), (1, 4)]
     = Inr [[12, 4, 1], [1, 4, 12], [6, 4, 2], [2, 4, 6], [4, 4, 3], [3, 4, 4]]
   \<and> prod_list [12, 4, 1] = (48 :: ulong)
   \<and> Factors_given 12 3 [(1, 5)] = Inl UndefinedBehaviour"
  by (simp add: Factors_given_def CalculateAllFactors_12 split_2_eq)

section \<open>PruneMax\<close>

lemma max_exceeded_in_range:
  "\<forall>(ix, m) \<in> set mx. ix < length t \<Longrightarrow> max_exceeded mx t = Inr (\<not> within_max mx t)"
  by (induction mx) (auto simp: within_max_def)

lemma max_exceeded_returns:
  "max_exceeded mx t = Inr b \<Longrightarrow> b = (\<not> within_max mx t)"
  by (induction mx) (auto simp: within_max_def split: if_splits)

lemma max_exceeded_False:
  "max_exceeded mx t = Inr False \<Longrightarrow> \<forall>(ix, m) \<in> set mx. ix < length t \<and> t ! ix \<le> m"
  by (induction mx) (auto split: if_splits)

lemma PruneMax_in_range:
  "\<forall>t \<in> set cs. \<forall>(ix, m) \<in> set mx. ix < length t
     \<Longrightarrow> PruneMax mx cs = Inr (filter (within_max mx) cs)"
  by (induction cs) (simp_all add: max_exceeded_in_range)

lemma PruneMax_returns:
  "PruneMax mx cs = Inr cs'
     \<Longrightarrow> cs' = filter (within_max mx) cs
         \<and> (\<forall>t \<in> set cs'. \<forall>(ix, m) \<in> set mx. ix < length t \<and> t ! ix \<le> m)"
proof (induction cs arbitrary: cs')
  case Nil
  then show ?case by simp
next
  case (Cons t ts)
  from Cons.prems obtain b ts' where b: "max_exceeded mx t = Inr b" and
    ts': "PruneMax mx ts = Inr ts'" and cs': "cs' = (if b then ts' else t # ts')"
    by (auto split: sum.splits)
  from Cons.IH [OF ts'] have ih: "ts' = filter (within_max mx) ts"
    "\<forall>t \<in> set ts'. \<forall>(ix, m) \<in> set mx. ix < length t \<and> t ! ix \<le> m" by simp_all
  show ?case
  proof (cases b)
    case True
    with max_exceeded_returns [OF b] have "\<not> within_max mx t" by simp
    with True cs' ih show ?thesis by simp
  next
    case False
    with max_exceeded_returns [OF b] have "within_max mx t" by simp
    moreover from False b have "\<forall>(ix, m) \<in> set mx. ix < length t \<and> t ! ix \<le> m"
      by (simp add: max_exceeded_False)
    ultimately show ?thesis using False cs' ih by simp
  qed
qed

text \<open>
  Claim C5. When \<^verbatim>\<open>PruneMax(max)\<close> returns, the collection is the original one without the
  tuples that have a value above the maximum at a position named in \<open>max\<close>, the others in
  their order; no tuple left exceeds a maximum; and a second call with the same map
  changes nothing. It returns whenever every named position exists in every tuple, and
  then the tuples removed are exactly those with \<open>t ! ix > m\<close> for some entry.
\<close>

theorem PruneMax_spec:
  "(PruneMax mx cs = Inr cs' \<longrightarrow>
      cs' = filter (within_max mx) cs
      \<and> (\<forall>t \<in> set cs'. \<forall>(ix, m) \<in> set mx. t ! ix \<le> m)
      \<and> PruneMax mx cs' = Inr cs')
   \<and> ((\<forall>t \<in> set cs. \<forall>(ix, m) \<in> set mx. ix < length t)
        \<longrightarrow> PruneMax mx cs = Inr (filter (\<lambda>t. \<forall>(ix, m) \<in> set mx. t ! ix \<le> m) cs))"
proof (intro conjI impI)
  assume r: "PruneMax mx cs = Inr cs'"
  from PruneMax_returns [OF r] show "cs' = filter (within_max mx) cs" by simp
  from PruneMax_returns [OF r]
  have ok: "\<forall>t \<in> set cs'. \<forall>(ix, m) \<in> set mx. ix < length t \<and> t ! ix \<le> m" by simp
  then show "\<forall>t \<in> set cs'. \<forall>(ix, m) \<in> set mx. t ! ix \<le> m" by fastforce
  from ok have "\<forall>t \<in> set cs'. \<forall>(ix, m) \<in> set mx. ix < length t" by fastforce
  then have "PruneMax mx cs' = Inr (filter (within_max mx) cs')" by (rule PruneMax_in_range)
  moreover from ok have "\<forall>t \<in> set cs'. within_max mx t"
    by (fastforce simp: within_max_def list_all_iff)
  then have "filter (within_max mx) cs' = cs'" by (simp add: filter_id_conv)
  ultimately show "PruneMax mx cs' = Inr cs'" by simp
next
  assume a: "\<forall>t \<in> set cs. \<forall>(ix, m) \<in> set mx. ix < length t"
  then have "filter (within_max mx) cs = filter (\<lambda>t. \<forall>(ix, m) \<in> set mx. t ! ix \<le> m) cs"
    by (intro filter_cong refl) (fastforce simp: within_max_def list_all_iff)
  with PruneMax_in_range [OF a]
  show "PruneMax mx cs = Inr (filter (\<lambda>t. \<forall>(ix, m) \<in> set mx. t ! ix \<le> m) cs)" by simp
qed

theorem PruneMax_spec_witness:
  "PruneMax [(0, 3)] [[12, 1], [1, 12], [6, 2], [2, 6], [4, 3], [3, 4]]
     = Inr [[1, 12], [2, 6], [3, 4]]
   \<and> PruneMax [(0, 3)] [[1, 12], [2, 6], [3, 4]] = Inr [[1, 12], [2, 6], [3, 4]]
   \<and> [[1, 12], [2, 6], [3, 4]] = filter (within_max [(0, 3)])
         [[12, 1], [1, 12], [6, 2], [2, 6], [4, 3], [3, 4]]"
proof -
  have r: "PruneMax [(0, 3)] [[12, 1], [1, 12], [6, 2], [2, 6], [4, 3], [3, 4]]
     = Inr [[1, 12], [2, 6], [3, 4]]" by simp
  from PruneMax_spec [of "[(0, 3)]" "[[12, 1], [1, 12], [6, 2], [2, 6], [4, 3], [3, 4]]"
      "[[1, 12], [2, 6], [3, 4]]"] r
  have "PruneMax [(0, 3)] [[1, 12], [2, 6], [3, 4]] = Inr [[1, 12], [2, 6], [3, 4]]"
    and "[[1, 12], [2, 6], [3, 4]] = filter (within_max [(0, 3)])
         [[12, 1], [1, 12], [6, 2], [2, 6], [4, 3], [3, 4]]"
    by blast+
  with r show ?thesis by blast
qed

section \<open>GetTiling\<close>

lemma smallest_factor_loop_product:
  "2 \<le> i \<Longrightarrow> 1 < n \<Longrightarrow> smallest_factor_loop n i = (f, r)
     \<Longrightarrow> unat f * unat r = unat n \<and> 0 < unat f"
proof (induction n i rule: smallest_factor_loop.induct)
  case (1 n i)
  have n_pos: "0 < unat n" using "1.prems"(2) by (simp add: word_less_nat_alt)
  show ?case
  proof (cases "i < n")
    case False
    with "1.prems"(3) have "f = n" "r = 1" by (simp_all add: smallest_factor_loop.simps [of n i])
    with n_pos show ?thesis by simp
  next
    case lt: True
    show ?thesis
    proof (cases "n mod i = 0")
      case True
      with lt "1.prems"(3) have fr: "f = i" "r = n div i"
        by (auto simp: smallest_factor_loop.simps [of n i])
      from True have "unat n mod unat i = 0" by (metis unat_mod unat_0)
      then have "unat i * (unat n div unat i) = unat n"
        using mult_div_mod_eq [of "unat i" "unat n"] by simp
      moreover have "0 < unat i" using "1.prems"(1) by (simp add: word_le_nat_alt)
      ultimately show ?thesis using fr by (simp add: unat_div)
    next
      case False
      have "i + 1 \<noteq> 0" using lt by unat_arith
      then have "2 \<le> i + 1" using "1.prems"(1) by unat_arith
      moreover from lt False "1.prems"(3) have "smallest_factor_loop n (i + 1) = (f, r)"
        by (simp add: smallest_factor_loop.simps [of n i])
      ultimately show ?thesis using "1.IH" [OF lt False] "1.prems"(2) by simp
    qed
  qed
qed

lemma SmallestFactor_product:
  "1 < n \<Longrightarrow> SmallestFactor n = (f, r) \<Longrightarrow> unat f * unat r = unat n \<and> 0 < unat f"
  unfolding SmallestFactor_def by (rule smallest_factor_loop_product) simp_all

lemma tiling_factors_product:
  "1 \<le> n \<Longrightarrow> prod_list (map unat (tiling_factors n)) = unat n
     \<and> (\<forall>f \<in> set (tiling_factors n). 0 < unat f)"
proof (induction n rule: tiling_factors.induct)
  case (1 n)
  show ?case
  proof (cases "1 < n")
    case False
    with "1.prems" have "n = 1" by (simp add: word_le_nat_alt word_less_nat_alt word_unat_eq_iff)
    then show ?thesis by (simp add: tiling_factors.simps [of 1])
  next
    case True
    obtain f r where fr: "SmallestFactor n = (f, r)" by (cases "SmallestFactor n")
    from SmallestFactor_product [OF True fr] have p: "unat f * unat r = unat n" "0 < unat f"
      by simp_all
    from True have "0 < unat n" by (simp add: word_less_nat_alt)
    with p(1) have "0 < unat r" by (metis mult_0_right neq0_conv)
    then have "1 \<le> r" by (simp add: word_le_nat_alt)
    with "1.IH" [OF True fr [symmetric]] have
      "prod_list (map unat (tiling_factors r)) = unat r"
      "\<forall>f \<in> set (tiling_factors r). 0 < unat f" by simp_all
    with True fr p show ?thesis by (simp add: tiling_factors.simps [of n])
  qed
qed

lemma prod_list_pos_nat:
  "\<forall>x \<in> set xs. 0 < x \<Longrightarrow> 0 < prod_list xs" for xs :: "nat list"
  by (induction xs) simp_all

lemma le_mult_pos_nat: "0 < k \<Longrightarrow> m \<le> m * k" for k m :: nat
  by (cases k) simp_all

lemma alternate_product:
  "unat h * unat w * prod_list (map unat fs) < 2 ^ 64 \<Longrightarrow> 0 < unat h \<Longrightarrow> 0 < unat w
     \<Longrightarrow> \<forall>f \<in> set fs. 0 < unat f \<Longrightarrow> alternate fs i h w = (h', w')
     \<Longrightarrow> unat h' * unat w' = unat h * unat w * prod_list (map unat fs)"
proof (induction fs arbitrary: i h w)
  case Nil
  then show ?case by simp
next
  case (Cons f fs)
  let ?P = "prod_list (map unat fs)"
  have f_pos: "0 < unat f" and rest_pos: "\<forall>f \<in> set fs. 0 < unat f"
    using Cons.prems(4) by simp_all
  then have P_pos: "0 < ?P" by (intro prod_list_pos_nat) simp
  have bound: "unat h * unat w * (unat f * ?P) < 2 ^ 64" using Cons.prems(1) by simp
  show ?case
  proof (cases "i mod 2 = 0")
    case True
    have "unat h * unat f \<le> unat h * unat f * (unat w * ?P)"
      using Cons.prems(3) P_pos by (intro le_mult_pos_nat) simp
    also have "\<dots> = unat h * unat w * (unat f * ?P)" by (simp add: mult_ac)
    finally have "unat h * unat f \<le> unat h * unat w * (unat f * ?P)" .
    then have "unat h * unat f < 2 ^ 64" using bound by (rule le_less_trans)
    then have hf: "unat (h * f) = unat h * unat f" using unat_mult_lem [of h f] by simp
    from True Cons.prems(5) have "alternate fs (i + 1) (h * f) w = (h', w')" by simp
    moreover have "unat (h * f) * unat w * ?P < 2 ^ 64" using bound hf by (simp add: mult_ac)
    moreover have "0 < unat (h * f)" using hf Cons.prems(2) f_pos by simp
    ultimately have "unat h' * unat w' = unat (h * f) * unat w * ?P"
      using Cons.IH [of "h * f" w "i + 1"] Cons.prems(3) rest_pos by simp
    then show ?thesis using hf by (simp add: mult_ac)
  next
    case False
    have "unat w * unat f \<le> unat w * unat f * (unat h * ?P)"
      using Cons.prems(2) P_pos by (intro le_mult_pos_nat) simp
    also have "\<dots> = unat h * unat w * (unat f * ?P)" by (simp add: mult_ac)
    finally have "unat w * unat f \<le> unat h * unat w * (unat f * ?P)" .
    then have "unat w * unat f < 2 ^ 64" using bound by (rule le_less_trans)
    then have wf: "unat (w * f) = unat w * unat f" using unat_mult_lem [of w f] by simp
    from False Cons.prems(5) have "alternate fs (i + 1) h (w * f) = (h', w')" by simp
    moreover have "unat h * unat (w * f) * ?P < 2 ^ 64" using bound wf by (simp add: mult_ac)
    moreover have "0 < unat (w * f)" using wf Cons.prems(3) f_pos by simp
    ultimately have "unat h' * unat w' = unat h * unat (w * f) * ?P"
      using Cons.IH [of h "w * f" "i + 1"] Cons.prems(2) rest_pos by simp
    then show ?thesis using wf by (simp add: mult_ac)
  qed
qed

text \<open>
  Claim C10. For every \<open>num_elems \<ge> 1\<close>, \<^verbatim>\<open>GetTiling\<close> returns a height and a width with
  \<open>height * width = num_elems\<close>, in 64-bit arithmetic and without overflow, and
  \<open>height \<le> width\<close>.
\<close>

theorem GetTiling_product:
  assumes "1 \<le> num_elems" and "GetTiling num_elems = (height, width)"
  shows "height * width = num_elems \<and> height \<le> width
         \<and> unat height * unat width = unat num_elems"
proof -
  obtain h w where hw: "alternate (tiling_factors num_elems) 0 1 1 = (h, w)"
    by (cases "alternate (tiling_factors num_elems) 0 1 1")
  from tiling_factors_product [OF assms(1)] have
    p: "prod_list (map unat (tiling_factors num_elems)) = unat num_elems"
    and pos: "\<forall>f \<in> set (tiling_factors num_elems). 0 < unat f" by simp_all
  have "unat num_elems < 2 ^ 64" using unsigned_less [of num_elems] by simp
  with p have "unat (1 :: ulong) * unat (1 :: ulong)
      * prod_list (map unat (tiling_factors num_elems)) < 2 ^ 64" by simp
  from alternate_product [OF this _ _ pos hw] p
  have prod: "unat h * unat w = unat num_elems" by simp
  from assms(2) hw have sw: "(height, width) = (if h > w then (w, h) else (h, w))"
    by (simp add: GetTiling_def)
  then have nat_prod: "unat height * unat width = unat num_elems"
    using prod by (auto simp: mult.commute split: if_splits)
  have le: "height \<le> width" using sw by (auto split: if_splits)
  have "unat height * unat width < 2 ^ 64"
    using nat_prod unsigned_less [of num_elems] by simp
  then have "unat (height * width) = unat height * unat width"
    using unat_mult_lem [of height width] by simp
  with nat_prod have "height * width = num_elems" by (simp add: word_unat_eq_iff)
  with le nat_prod show ?thesis by simp
qed

theorem GetTiling_product_witness:
  "(1 :: ulong) \<le> 12 \<and> GetTiling 12 = (2, 6) \<and> (2 :: ulong) * 6 = 12 \<and> (2 :: ulong) \<le> 6"
proof -
  have g: "GetTiling 12 = (2, 6)"
    by (simp add: GetTiling_def tiling_factors.simps SmallestFactor_def smallest_factor_loop.simps)
  have h: "(1 :: ulong) \<le> 12" by simp
  from GetTiling_product [OF h g] g h show ?thesis by simp
qed

section \<open>The equation solver\<close>






lemma residual_vector_length:
  "residual_vector ix sp r i s f = Inr (v, valid) \<Longrightarrow> length v = length f"
  by (induction f arbitrary: i s v valid) (auto split: if_splits sum.splits)


lemma collect_member:
  "collect h xs = Inr out \<Longrightarrow> y \<in> set out \<Longrightarrow> \<exists>x \<in> set xs. \<exists>ys. h x = Inr ys \<and> y \<in> set ys"
  by (induction xs arbitrary: out) (auto split: sum.splits)

lemma collect_nothing:
  "collect h xs = Inr out \<Longrightarrow> \<forall>x \<in> set xs. \<forall>ys. h x = Inr ys \<longrightarrow> ys = [] \<Longrightarrow> out = []"
  by (induction xs arbitrary: out) (auto split: sum.splits)


lemma solve_pair_zero_front:
  assumes "solve_pair n ix sp (0 # t) r = Inr out" and "n \<noteq> 0" and "length t < 2 ^ 32 - 1"
  shows "out = []"
proof (rule ccontr)
  assume "out \<noteq> []"
  with assms(1) obtain v valid where
    rv: "residual_vector ix sp r 0 0 (0 # t) = Inr (v, valid)"
    and eq: "equation_answer (take (length (0 # t) mod 2 ^ 32) (zip (0 # t) v)) + 1 = n"
    and le: "list_all (\<lambda>(x, v). \<not> x < v) (take (length (0 # t) mod 2 ^ 32) (zip (0 # t) v))"
    by (auto simp: solve_pair_def Let_def split: sum.splits prod.splits if_splits)
  from residual_vector_length [OF rv] obtain v0 vs where v: "v = v0 # vs" by (cases v) auto
  from assms(3) have "length (0 # t) mod 2 ^ 32 = Suc (length t)" by simp
  with eq le v have eq': "0 * equation_answer (zip t vs) + (v0 - 1) + 1 = n"
    and le': "\<not> 0 < v0" by simp_all
  from le' have "v0 = 0" by (simp add: word_gt_0)
  with eq' assms(2) show False by simp
qed



lemma EquationSolver_no_candidates: "EquationSolver n given ix sp [] prf = Inr []"
  by (simp add: EquationSolver_def)

lemma EquationSolver_zero_front:
  assumes sol: "EquationSolver n [(0, 0)] ix sp ppf rs = Inr sol" and "n \<noteq> 0"
    and "length ppf < 2 ^ 32" and "\<forall>t \<in> set ppf. length t < 2 ^ 32 - 1"
  shows "sol = []"
proof -
  from assms(3) have m: "length ppf mod 2 ^ 32 = length ppf" by simp
  from sol m obtain spliced where
    sp: "collect (\<lambda>t. map_sum id (\<lambda>t'. [t']) (splice [(0, 0)] t)) ppf = Inr spliced"
    and so: "collect (\<lambda>f. collect (solve_pair n ix sp f) rs) spliced = Inr sol"
    by (auto simp: EquationSolver_def Let_def split: sum.splits)
  have "ys = []" if f: "f \<in> set spliced" and ys: "collect (solve_pair n ix sp f) rs = Inr ys"
    for f ys
  proof -
    from collect_member [OF sp f] obtain t where t: "t \<in> set ppf" and ft: "f = 0 # t" by auto
    have "out = []" if "solve_pair n ix sp f r = Inr out" for r out
      using that ft t assms(2,4) by (auto intro: solve_pair_zero_front)
    with collect_nothing [OF ys] show ?thesis by blast
  qed
  with collect_nothing [OF so] show ?thesis by blast
qed

section \<open>The candidate pools\<close>

text \<open>
  Every candidate factor tuple has \<open>order\<close> entries, all from \<^verbatim>\<open>all_factors_\<close>; no element of
  \<^verbatim>\<open>all_factors_\<close> is 0 unless the floating-point product of the widening step is; and
  every residual candidate consists of positive entries.
\<close>

lemma fold_product_member:
  "t \<in> set (fold (\<lambda>u s. concat (map (\<lambda>x. map (\<lambda>y. x @ [y]) u) s)) v s0)
     \<Longrightarrow> \<exists>x \<in> set s0. \<exists>ys. t = x @ ys \<and> length ys = length v \<and> set ys \<subseteq> \<Union> (set ` set v)"
proof (induction v arbitrary: s0)
  case Nil
  then show ?case by simp
next
  case (Cons u v)
  from Cons.prems have
    "t \<in> set (fold (\<lambda>u s. concat (map (\<lambda>x. map (\<lambda>y. x @ [y]) u) s)) v
                 (concat (map (\<lambda>x. map (\<lambda>y. x @ [y]) u) s0)))" by simp
  from Cons.IH [OF this] obtain x' ys' where
    x': "x' \<in> set (concat (map (\<lambda>x. map (\<lambda>y. x @ [y]) u) s0))"
    and t: "t = x' @ ys'" "length ys' = length v" "set ys' \<subseteq> \<Union> (set ` set v)" by blast
  from x' obtain x y where xy: "x \<in> set s0" "y \<in> set u" "x' = x @ [y]" by auto
  with t have "t = x @ (y # ys')" "length (y # ys') = length (u # v)"
    "set (y # ys') \<subseteq> \<Union> (set ` set (u # v))" by auto
  with xy(1) show ?case by blast
qed

lemma cart_product_member:
  "t \<in> set (cart_product v) \<Longrightarrow> length t = length v \<and> set t \<subseteq> \<Union> (set ` set v)"
  unfolding cart_product_def by (drule fold_product_member) auto

lemma concat_map_Nil: "concat (map (\<lambda>x. []) s) = []"
  by (induction s) simp_all

lemma fold_product_empty:
  "fold (\<lambda>u s. concat (map (\<lambda>x. map (\<lambda>y. x @ [y]) u) s)) v [] = []"
  by (induction v) simp_all

lemma cart_product_empty_choice:
  "[] \<in> set v \<Longrightarrow> fold (\<lambda>u s. concat (map (\<lambda>x. map (\<lambda>y. x @ [y]) u) s)) v s = []"
proof (induction v arbitrary: s)
  case Nil
  then show ?case by simp
next
  case (Cons u v)
  show ?case
  proof (cases "u = []")
    case True
    then show ?thesis by (simp add: concat_map_Nil fold_product_empty)
  next
    case False
    with Cons.prems have "[] \<in> set v" by auto
    from Cons.IH [OF this] show ?thesis by simp
  qed
qed

lemma position_choices_subset: "set (position_choices T all rec i) \<subseteq> set all"
  by (auto simp: position_choices_def)

lemma rotation_member:
  assumes "t \<in> set (rotation T all order rec)" and "rec < order"
  shows "length t = order \<and> set t \<subseteq> set all"
proof -
  let ?inter = "map (position_choices T all rec) [0..<order]"
  let ?sw = "?inter[0 := ?inter ! rec, rec := ?inter ! 0]"
  from assms(1) have "t \<in> set (cart_product ?sw)" by (simp add: rotation_def Let_def)
  from cart_product_member [OF this] have len: "length t = order"
    and sub: "set t \<subseteq> \<Union> (set ` set ?sw)" by simp_all
  have "set ?sw \<subseteq> insert (?inter ! 0) (insert (?inter ! rec) (set ?inter))"
    by (meson set_update_subset_insert subset_trans insert_mono)
  moreover have "?inter ! 0 \<in> set ?inter" "?inter ! rec \<in> set ?inter"
    using assms(2) by (auto intro!: nth_mem)
  ultimately have "set ?sw \<subseteq> set ?inter" by auto
  then have "\<Union> (set ` set ?sw) \<subseteq> set all"
    using position_choices_subset by fastforce
  with len sub show ?thesis by blast
qed

lemma GenerateFactorProduct_member:
  "t \<in> set (GenerateFactorProduct fp n_member all n order)
     \<Longrightarrow> length t = order \<and> set t \<subseteq> set all"
  by (auto simp: GenerateFactorProduct_def Let_def dest: rotation_member)


lemma GenerateFactorProduct_no_factors: "GenerateFactorProduct fp m [] n order = []"
proof -
  have "rotation T [] order rec = []" if "rec < order" for T rec
  proof -
    let ?inter = "map (position_choices T [] rec) [0..<order]"
    let ?sw = "?inter[0 := ?inter ! rec, rec := ?inter ! 0]"
    have "?sw ! rec = ?inter ! 0" using that by simp
    also have "\<dots> = []" using that by (simp add: position_choices_def)
    finally have "?sw ! rec = []" .
    moreover have "rec < length ?sw" using that by simp
    ultimately have "[] \<in> set ?sw" by (metis nth_mem)
    then show ?thesis by (simp add: rotation_def Let_def cart_product_def cart_product_empty_choice)
  qed
  then have "concat (map (rotation T [] order) [0..<order]) = []" for T by simp
  then show ?thesis by (simp add: GenerateFactorProduct_def Let_def)
qed







lemma no_factors_of_zero:
  assumes "Residual_CalculateAllFactors 0 [] = Inr ds"
    and "CalculateSpatialFactors fp 0 spatial ds = Inr all_factors"
  shows "all_factors = []"
proof -
  from assms(1) have "ds = []"
    by (simp add: Residual_CalculateAllFactors_def ISqrt_0 count_from.simps)
  with assms(2) show ?thesis
    by (auto simp: CalculateSpatialFactors_def Let_def count_from.simps [of 1 0] concat_map_Nil
        split: option.splits if_splits)
qed




section \<open>A run of ResidualFactors\<close>

text \<open>
  The stages of the construction for \<open>n = 5\<close>, order 2 and one spatial bound, 2, on
  position 1.
\<close>

lemmas run_simps = ISqrt_def isqrt_seek.simps isqrt_loop.simps count_from.simps count_from32.simps
  divisor_step_def set_insert_def spatial_step_def cart_product_def position_choices_def
  rotation_def prune_product_def solve_pair_def Let_def word_le_nat_alt word_less_nat_alt

lemma run_divisors_5: "Residual_CalculateAllFactors 5 [] = Inr [1, 5]"
  by (simp add: Residual_CalculateAllFactors_def run_simps)

lemma ideal_float_at_5: "sqrt_bound ideal_float 5 = 3" "spatial_multiple ideal_float 1 5 = 25"
  "spatial_multiple ideal_float 2 5 = 30"
  by (simp_all add: ideal_float_def upt_rec [of _ "numeral _"])

lemma run_spatial_5: "CalculateSpatialFactors ideal_float 5 [2] [1, 5] = Inr [1, 2, 3, 5]"
  by (simp add: CalculateSpatialFactors_def ideal_float_at_5 run_simps)

lemma run_candidates_5: "GenerateFactorProduct ideal_float 5 [1, 2, 3, 5] 5 2 =
  [[1, 1], [1, 2], [1, 3], [2, 1], [2, 2], [2, 3], [3, 1], [3, 2], [3, 3], [5, 1], [5, 2],
   [1, 3], [1, 5], [2, 3], [2, 5], [3, 3]]"
  by (simp add: GenerateFactorProduct_def ideal_float_at_5 run_simps upt_rec [of _ "numeral _"])

lemma run_residuals_5: "GenerateResidual [2] 5 2 = Inr [[1], [2]]"
  by (simp add: GenerateResidual_def run_simps)

lemma run_solver_5: "EquationSolver 5 [] [1] [2]
  [[1, 1], [1, 2], [1, 3], [2, 1], [2, 2], [2, 3], [3, 1], [3, 2], [3, 3], [5, 1], [5, 2],
   [1, 3], [1, 5], [2, 3], [2, 5], [3, 3]] [[1], [2]] = Inr [([5, 1], [5, 1]), ([5, 2], [5, 1])]"
  by (simp add: EquationSolver_def run_simps)

lemma ResidualFactors_given_5:
  "ResidualFactors_given ideal_float 5 2 [2] [1] [] = Inr [([5, 1], [5, 1]), ([5, 2], [5, 1])]"
  by (simp add: ResidualFactors_given_def run_divisors_5 run_spatial_5 run_candidates_5 run_residuals_5 run_solver_5)


section \<open>The pairs ResidualFactors stores\<close>




text \<open>
  The constructor without a Given Assignment passes the one-entry map \<open>0 \<mapsto> 0\<close> to the
  solver, which puts a 0 in front of every candidate: it stores no pair at all, as long
  as the candidates are fewer than \<open>2\<^sup>3\<^sup>2\<close>, the range of the insertion loop's counter.
\<close>

lemma ResidualFactors_stores_nothing:
  assumes ctor: "ResidualFactors fp n order spatial ix = Inr coll" and ord: "order < 2 ^ 31"
    and small: "\<forall>ds all_factors. Residual_CalculateAllFactors n [] = Inr ds
        \<longrightarrow> CalculateSpatialFactors fp n spatial ds = Inr all_factors
        \<longrightarrow> length (GenerateFactorProduct fp n all_factors n order) < 2 ^ 32"
  shows "coll = []"
proof -
  from ctor obtain ds all_factors residuals sol where
    ds: "Residual_CalculateAllFactors n [] = Inr ds"
    and al: "CalculateSpatialFactors fp n spatial ds = Inr all_factors"
    and so: "EquationSolver n [(0, 0)] ix spatial (GenerateFactorProduct fp n all_factors n order)
               residuals = Inr sol"
    and coll: "coll = map (\<lambda>(f, r). (rev f, rev r)) sol"
    by (auto simp: ResidualFactors_def split: sum.splits if_splits)
  have "sol = []"
  proof (cases "n = 0")
    case True
    with ds al have "all_factors = []" using no_factors_of_zero by blast
    with so show ?thesis
      by (simp add: GenerateFactorProduct_no_factors EquationSolver_no_candidates)
  next
    case False
    from small ds al have "length (GenerateFactorProduct fp n all_factors n order) < 2 ^ 32"
      by blast
    moreover have "\<forall>t \<in> set (GenerateFactorProduct fp n all_factors n order).
        length t < 2 ^ 32 - 1"
      using ord by (auto dest!: GenerateFactorProduct_member)
    ultimately show ?thesis using so False by (intro EquationSolver_zero_front)
  qed
  with coll show ?thesis by simp
qed

lemma ResidualFactors_5: "ResidualFactors ideal_float 5 2 [2] [1] = Inr []"
proof -
  have "\<exists>sol. EquationSolver 5 [(0, 0)] [1] [2]
      (GenerateFactorProduct ideal_float 5 [1, 2, 3, 5] 5 2) [[1], [2]] = Inr sol"
    by (simp add: run_candidates_5 EquationSolver_def run_simps)
  then obtain sol where s: "EquationSolver 5 [(0, 0)] [1] [2]
      (GenerateFactorProduct ideal_float 5 [1, 2, 3, 5] 5 2) [[1], [2]] = Inr sol" by blast
  have "sol = []"
    by (rule EquationSolver_zero_front [OF s]) (simp_all add: run_candidates_5)
  with s show ?thesis
    by (simp add: ResidualFactors_def run_divisors_5 run_spatial_5 run_residuals_5)
qed

section \<open>Order 0\<close>






section \<open>Reversal\<close>

lemma ResidualFactors_reverses:
  assumes "ResidualFactors fp n order spatial ix = Inr coll"
  shows "\<exists>all_factors residuals solutions.
           EquationSolver n [(0, 0)] ix spatial (GenerateFactorProduct fp n all_factors n order)
             residuals = Inr solutions
           \<and> coll = map (\<lambda>(f, r). (rev f, rev r)) solutions"
  using assms by (auto simp: ResidualFactors_def split: sum.splits if_splits)

lemma ResidualFactors_given_stores_solutions:
  assumes "ResidualFactors_given fp n order spatial ix given = Inr coll"
  shows "\<exists>pp kept all_factors residuals.
           accumulate_given n 1 given = Inr (pp, kept)
           \<and> EquationSolver n kept ix spatial
               (GenerateFactorProduct fp n all_factors (n div pp) (order - length kept))
               residuals = Inr coll"
  using assms by (auto simp: ResidualFactors_given_def split: sum.splits if_splits prod.splits)

text \<open>
  Claim C7. The constructor without a Given Assignment reverses every stored pair
  (\<open>ResidualFactors_reverses\<close>); the constructor with a Given Assignment stores the pairs as
  the solver appended them (\<open>ResidualFactors_given_stores_solutions\<close>). For \<open>n = 5\<close>, order
  2 and the spatial bound 2 on position 1 it stores \<open>([5,1],[5,1])\<close> and \<open>([5,2],[5,1])\<close>, the
  solver's own output, whose reversal would be \<open>([1,5],[1,5])\<close> and \<open>([2,5],[1,5])\<close>.
\<close>

theorem given_constructor_keeps_solver_order:
  "ResidualFactors_given ideal_float 5 2 [2] [1] [] = Inr [([5, 1], [5, 1]), ([5, 2], [5, 1])]
   \<and> EquationSolver 5 [] [1] [2] (GenerateFactorProduct ideal_float 5 [1, 2, 3, 5] 5 2) [[1], [2]]
       = Inr [([5, 1], [5, 1]), ([5, 2], [5, 1])]
   \<and> map (\<lambda>(f, r). (rev f, rev r)) [([5, 1], [5, 1]), ([5, 2], [5, 1 :: ulong])]
       = [([1, 5], [1, 5]), ([2, 5], [1, 5 :: ulong])]"
  by (simp add: ResidualFactors_given_5 run_candidates_5 run_solver_5)

section \<open>Determinism\<close>



end
